theory Spec2Isabelle
  imports Main "HOL-Library.Word"
begin

unbundle bit_operations_syntax

section \<open>The segment router (inthash/hash.go)\<close>

subsection \<open>Keys\<close>

text \<open>
  The type set of \<^verbatim>\<open>Hashable\<close> is
  \<^verbatim>\<open>string | ~int | ~int8 | ~int16 | ~int32 | ~int64 | ~uint | ~uint8 | ~uint16 | ~uint32 | ~uint64 | ~float32 | ~float64\<close>.
  \<^verbatim>\<open>Hash.Get\<close> dispatches on \<^verbatim>\<open>reflect.TypeOf(k).Kind()\<close>, so a key is modelled as a
  value tagged with its kind. Integers are words of the kind's width; \<^verbatim>\<open>int\<close> and
  \<^verbatim>\<open>uint\<close> are 64 bits wide (a 64-bit platform). A signed key is the word of its two's
  complement pattern. A string is its bytes.

  Floating-point arithmetic is not modelled. A float key carries its IEEE-754 bit
  pattern, which decides \<^verbatim>\<open>==\<close>, and the two 32-bit words that \<^verbatim>\<open>Hash.Get\<close> obtains from
  it by conversion: \<^verbatim>\<open>math.Float32bits(float32(x))\<close> and \<^verbatim>\<open>uint32(float32(x))\<close>.

  \<open>KOther\<close> stands for a key of any other kind, which only the untyped router built
  by \<^verbatim>\<open>New\<close> (a \<^verbatim>\<open>Hash[any]\<close>) can be given.
\<close>

record fwords =
  Float32bits :: "32 word"
  truncated :: "32 word"

datatype key =
    KString string
  | KInt "64 word"
  | KInt8 "8 word"
  | KInt16 "16 word"
  | KInt32 "32 word"
  | KInt64 "64 word"
  | KUint "64 word"
  | KUint8 "8 word"
  | KUint16 "16 word"
  | KUint32 "32 word"
  | KUint64 "64 word"
  | KFloat32 "32 word" fwords
  | KFloat64 "64 word" fwords
  | KOther

text \<open>
  Every panic of the two source files is an error value:
  \<^item> \<open>ReflectValueInt\<close>: \<^verbatim>\<open>reflect.Value.Int\<close> panics when the value's kind is not one
    of Int, Int8, Int16, Int32, Int64;
  \<^item> \<open>NonImplementedType\<close>: the \<^verbatim>\<open>default\<close> branch of \<^verbatim>\<open>Hash.Get\<close>;
  \<^item> \<open>IndexOutOfRange\<close>: indexing \<^verbatim>\<open>s.segment\<close> or \<^verbatim>\<open>s.mutex\<close> outside the slice;
  \<^item> \<open>MakeSliceLen\<close>: \<^verbatim>\<open>make([]T, n)\<close> with a negative \<open>n\<close>.
\<close>

datatype error = ReflectValueInt | NonImplementedType | IndexOutOfRange | MakeSliceLen

subsection \<open>FNV-1, 32 bits (hash/fnv)\<close>

text \<open>
  \<^verbatim>\<open>fnv.New32()\<close> starts from the offset basis 2166136261; \<^verbatim>\<open>Write\<close> multiplies the
  state by the prime 16777619 and then xors the byte in, for each byte in turn;
  \<^verbatim>\<open>Sum32\<close> returns the state.
\<close>

definition offset32 :: "32 word" where
  "offset32 = 2166136261"

definition prime32 :: "32 word" where
  "prime32 = 16777619"

definition Write :: "32 word \<Rightarrow> 8 word list \<Rightarrow> 32 word" where
  "Write h data = foldl (\<lambda>hash c. (hash * prime32) XOR ucast c) h data"

definition Sum32 :: "8 word list \<Rightarrow> 32 word" where
  "Sum32 data = Write offset32 data"

subsection \<open>Byte encodings\<close>

text \<open>\<^verbatim>\<open>StringToBytes\<close>: the bytes of the string, unchanged.\<close>

definition StringToBytes :: "string \<Rightarrow> 8 word list" where
  "StringToBytes s = map of_char s"

text \<open>\<^verbatim>\<open>binary.LittleEndian.PutUint16/32/64\<close> into a fresh slice of 2, 4 and 8 bytes.\<close>

definition PutUint16 :: "16 word \<Rightarrow> 8 word list" where
  "PutUint16 v = [ucast v, ucast (drop_bit 8 v)]"

definition PutUint32 :: "32 word \<Rightarrow> 8 word list" where
  "PutUint32 v = [ucast v, ucast (drop_bit 8 v), ucast (drop_bit 16 v), ucast (drop_bit 24 v)]"

definition PutUint64 :: "64 word \<Rightarrow> 8 word list" where
  "PutUint64 v = [ucast v, ucast (drop_bit 8 v), ucast (drop_bit 16 v), ucast (drop_bit 24 v),
     ucast (drop_bit 32 v), ucast (drop_bit 40 v), ucast (drop_bit 48 v), ucast (drop_bit 56 v)]"

text \<open>
  The bytes each branch of the \<^verbatim>\<open>switch\<close> in \<^verbatim>\<open>Hash.Get\<close> writes to the hasher, in the
  order of the source. \<^verbatim>\<open>reflect.ValueOf(k).Int()\<close> is the key sign-extended to 64 bits,
  then converted to \<^verbatim>\<open>uint16\<close>, \<^verbatim>\<open>uint32\<close> or \<^verbatim>\<open>uint64\<close>. The branches for Uint, Uint8,
  Uint16 and Uint32 call \<^verbatim>\<open>Int()\<close> too, which panics on an unsigned kind; only the
  Uint64 branch calls \<^verbatim>\<open>Uint()\<close>.
\<close>

fun key_bytes :: "key \<Rightarrow> error + 8 word list" where
  "key_bytes (KString s) = Inr (StringToBytes s)"
| "key_bytes (KInt x) = Inr (PutUint32 (ucast x))"
| "key_bytes (KInt8 x) = Inr (PutUint16 (scast x))"
| "key_bytes (KInt16 x) = Inr (PutUint16 x)"
| "key_bytes (KInt32 x) = Inr (PutUint32 x)"
| "key_bytes (KInt64 x) = Inr (PutUint64 x)"
| "key_bytes (KUint x) = Inl ReflectValueInt"
| "key_bytes (KUint8 x) = Inl ReflectValueInt"
| "key_bytes (KUint16 x) = Inl ReflectValueInt"
| "key_bytes (KUint32 x) = Inl ReflectValueInt"
| "key_bytes (KUint64 x) = Inr (PutUint64 x)"
| "key_bytes (KFloat32 p w) = Inr (PutUint32 (Float32bits w + truncated w))"
| "key_bytes (KFloat64 p w) = Inr (PutUint32 (Float32bits w + truncated w))"
| "key_bytes KOther = Inl NonImplementedType"

subsection \<open>The router\<close>

record Hash =
  segments :: int
  mask_f :: "16 word"

text \<open>
  \<^verbatim>\<open>uint16(math.Log2(float64(size)))\<close> for \<open>size \<ge> 1\<close>: the base-2 logarithm, truncated.
  \<^verbatim>\<open>math.Log2\<close> is exact on powers of two, and below \<open>2 ^ 16\<close> its error is far smaller
  than the distance of the logarithm to the next integer; from \<open>2 ^ 16\<close> on the shift
  below yields 0 whatever the count is, so the rounding of \<^verbatim>\<open>float64\<close> never shows.
\<close>

fun Log2 :: "nat \<Rightarrow> nat" where
  "Log2 n = (if n < 2 then 0 else Suc (Log2 (n div 2)))"

declare Log2.simps [simp del]

text \<open>
  \<^verbatim>\<open>mask\<close>: in \<^verbatim>\<open>uint16(1<<bitCount - 1)\<close> the constant 1 takes the type \<^verbatim>\<open>uint16\<close>, so the
  shift and the subtraction are 16-bit: a shift count of 16 or more gives 0, and the
  mask is then \<open>0xFFFF\<close>.
\<close>

definition mask_of :: "int \<Rightarrow> 16 word" where
  "mask_of segs =
     (let size = max segs 1;
          bitCount = (word_of_nat (Log2 (nat size)) :: 16 word)
      in push_bit (unat bitCount) 1 - 1)"

definition NewHash :: "int \<Rightarrow> Hash" where
  "NewHash segs = \<lparr>segments = segs, mask_f = mask_of segs\<rparr>"

definition Segments :: "Hash \<Rightarrow> int" where
  "Segments s = segments s"

text \<open>
  \<^verbatim>\<open>Hash.Get\<close>: \<^verbatim>\<open>b = int(h.Sum32())\<close> is not negative, and \<^verbatim>\<open>b & int(s.mask)\<close> is the
  conjunction of the digest with the mask, zero-extended.
\<close>

definition Get_hash :: "Hash \<Rightarrow> key \<Rightarrow> error + nat" where
  "Get_hash s k =
     (case key_bytes k of
        Inl e \<Rightarrow> Inl e
      | Inr bytes \<Rightarrow> Inr (unat (Sum32 bytes AND ucast (mask_f s))))"

section \<open>The segmented map (map.go)\<close>

subsection \<open>Go's built-in map\<close>

text \<open>
  A segment is a \<^verbatim>\<open>map[K]V\<close>. Go compares keys with \<^verbatim>\<open>==\<close>, which on floating-point
  keys is the IEEE-754 comparison: a NaN equals nothing, itself included, and the two
  zeros are equal. On every other kind \<^verbatim>\<open>==\<close> is equality of the values.
\<close>

definition f32_nan :: "32 word \<Rightarrow> bool" where
  "f32_nan p \<longleftrightarrow> p AND 0x7F800000 = 0x7F800000 \<and> p AND 0x007FFFFF \<noteq> 0"

definition f32_eq :: "32 word \<Rightarrow> 32 word \<Rightarrow> bool" where
  "f32_eq p q \<longleftrightarrow>
     \<not> f32_nan p \<and> \<not> f32_nan q \<and> (p = q \<or> (p AND 0x7FFFFFFF = 0 \<and> q AND 0x7FFFFFFF = 0))"

definition f64_nan :: "64 word \<Rightarrow> bool" where
  "f64_nan p \<longleftrightarrow> p AND 0x7FF0000000000000 = 0x7FF0000000000000 \<and> p AND 0x000FFFFFFFFFFFFF \<noteq> 0"

definition f64_eq :: "64 word \<Rightarrow> 64 word \<Rightarrow> bool" where
  "f64_eq p q \<longleftrightarrow>
     \<not> f64_nan p \<and> \<not> f64_nan q \<and>
     (p = q \<or> (p AND 0x7FFFFFFFFFFFFFFF = 0 \<and> q AND 0x7FFFFFFFFFFFFFFF = 0))"

definition key_eq :: "key \<Rightarrow> key \<Rightarrow> bool" where
  "key_eq k k' =
     (case k of
        KFloat32 p w \<Rightarrow> (case k' of KFloat32 q w' \<Rightarrow> f32_eq p q | _ \<Rightarrow> False)
      | KFloat64 p w \<Rightarrow> (case k' of KFloat64 q w' \<Rightarrow> f64_eq p q | _ \<Rightarrow> False)
      | _ \<Rightarrow> k = k')"

text \<open>
  The entries of a map, as a list in the order of insertion. \<open>map_lookup\<close> is
  \<^verbatim>\<open>v, ok := m[k]\<close>, \<open>map_assign\<close> is \<^verbatim>\<open>m[k] = v\<close> (an entry with an equal key is
  overwritten, key included; otherwise an entry is added, so every assignment to a NaN
  adds one) and \<open>map_delete\<close> is \<^verbatim>\<open>delete(m, k)\<close>.
\<close>

type_synonym 'v gomap = "(key \<times> 'v) list"

fun map_lookup :: "'v gomap \<Rightarrow> key \<Rightarrow> 'v option" where
  "map_lookup [] k = None"
| "map_lookup ((k', v') # m) k = (if key_eq k' k then Some v' else map_lookup m k)"

fun map_assign :: "'v gomap \<Rightarrow> key \<Rightarrow> 'v \<Rightarrow> 'v gomap" where
  "map_assign [] k v = [(k, v)]"
| "map_assign ((k', v') # m) k v =
     (if key_eq k' k then (k, v) # m else (k', v') # map_assign m k v)"

definition map_delete :: "'v gomap \<Rightarrow> key \<Rightarrow> 'v gomap" where
  "map_delete m k = filter (\<lambda>(k', v'). \<not> key_eq k' k) m"

subsection \<open>The map\<close>

text \<open>
  The struct \<^verbatim>\<open>Map\<close>. The model is sequential: one operation runs at a time, so a lock
  is always free when it is taken, and the slice \<^verbatim>\<open>mutex\<close> is left out. It has the length
  of \<^verbatim>\<open>segment\<close> in every map there is (\<^verbatim>\<open>NewSegmentedMap\<close> makes both with the same
  count, and nothing resizes them), so indexing \<^verbatim>\<open>s.mutex[i]\<close> panics exactly when
  indexing \<^verbatim>\<open>s.segment[i]\<close> would.
\<close>

record 'v Map =
  segment :: "'v gomap list"
  hash :: Hash
  segmented :: bool

text \<open>
  \<^verbatim>\<open>NewSegmentedMap\<close>: \<^verbatim>\<open>make([]map[K]V, segmentCount)\<close> panics on a negative count, and
  makes no segment at all for the count 0. The capacity is a hint to the allocator.
\<close>

definition NewSegmentedMap :: "int \<Rightarrow> int \<Rightarrow> error + 'v Map" where
  "NewSegmentedMap segmentCount segmentCapacity =
     (let h = NewHash segmentCount;
          sgm = (Segments h > 1)
      in if segmentCount < 0 then Inl MakeSliceLen
         else Inr \<lparr>segment = replicate (nat segmentCount) [], hash = h, segmented = sgm\<rparr>)"

definition NewMap :: "error + 'v Map" where
  "NewMap = NewSegmentedMap 1 1"

text \<open>\<^verbatim>\<open>lock\<close> and \<^verbatim>\<open>rLock\<close> index \<^verbatim>\<open>s.mutex\<close>; unlocking the same index cannot fail.\<close>

definition lock :: "'v Map \<Rightarrow> nat \<Rightarrow> error + unit" where
  "lock s i = (if i < length (segment s) then Inr () else Inl IndexOutOfRange)"

definition rLock :: "'v Map \<Rightarrow> nat \<Rightarrow> error + unit" where
  "rLock s i = (if i < length (segment s) then Inr () else Inl IndexOutOfRange)"

text \<open>
  The opening of every single-key operation:
  \<^verbatim>\<open>h := s.hash.Get(k); s.lock(h); defer s.unlock(h)\<close>.
\<close>

definition locked :: "'v Map \<Rightarrow> key \<Rightarrow> error + nat" where
  "locked s k =
     (case Get_hash (hash s) k of
        Inl e \<Rightarrow> Inl e
      | Inr h \<Rightarrow> (case lock s h of Inl e \<Rightarrow> Inl e | Inr u \<Rightarrow> Inr h))"

definition rLocked :: "'v Map \<Rightarrow> key \<Rightarrow> error + nat" where
  "rLocked s k =
     (case Get_hash (hash s) k of
        Inl e \<Rightarrow> Inl e
      | Inr h \<Rightarrow> (case rLock s h of Inl e \<Rightarrow> Inl e | Inr u \<Rightarrow> Inr h))"

text \<open>\<^verbatim>\<open>s.segment[h][k] = v\<close> and \<^verbatim>\<open>delete(s.segment[h], k)\<close>, for \<open>h\<close> in range.\<close>

definition store :: "'v Map \<Rightarrow> nat \<Rightarrow> key \<Rightarrow> 'v \<Rightarrow> 'v Map" where
  "store s h k v = s\<lparr>segment := (segment s)[h := map_assign (segment s ! h) k v]\<rparr>"

definition remove :: "'v Map \<Rightarrow> nat \<Rightarrow> key \<Rightarrow> 'v Map" where
  "remove s h k = s\<lparr>segment := (segment s)[h := map_delete (segment s ! h) k]\<rparr>"

text \<open>
  The zero value of \<^verbatim>\<open>V\<close>, \<^verbatim>\<open>zero[V]()\<close>, is the \<open>0\<close> of the value type.
\<close>

definition Set :: "'v Map \<Rightarrow> key \<Rightarrow> 'v \<Rightarrow> error + 'v Map" where
  "Set s k v = (case locked s k of Inl e \<Rightarrow> Inl e | Inr h \<Rightarrow> Inr (store s h k v))"

definition Get :: "('v::zero) Map \<Rightarrow> key \<Rightarrow> error + 'v \<times> bool" where
  "Get s k =
     (case rLocked s k of
        Inl e \<Rightarrow> Inl e
      | Inr h \<Rightarrow>
          (case map_lookup (segment s ! h) k of
             Some v \<Rightarrow> Inr (v, True)
           | None \<Rightarrow> Inr (0, False)))"

text \<open>
  \<^verbatim>\<open>Delete\<close>. The first loop groups the keys by segment index in \<^verbatim>\<open>hashes\<close>, a
  \<^verbatim>\<open>map[int][]K\<close>; a key the router panics on stops the call there, before anything
  is removed. The second loop ranges over \<^verbatim>\<open>hashes\<close>, in an order Go leaves open;
  the model takes the groups in the order in which their first key was listed.
\<close>

fun append_key :: "(nat \<times> key list) list \<Rightarrow> nat \<Rightarrow> key \<Rightarrow> (nat \<times> key list) list" where
  "append_key [] h k = [(h, [k])]"
| "append_key ((h', ks) # g) h k =
     (if h' = h then (h', ks @ [k]) # g else (h', ks) # append_key g h k)"

fun group_keys ::
  "Hash \<Rightarrow> key list \<Rightarrow> (nat \<times> key list) list \<Rightarrow> error + (nat \<times> key list) list" where
  "group_keys hs [] g = Inr g"
| "group_keys hs (k # ks) g =
     (case Get_hash hs k of
        Inl e \<Rightarrow> Inl e
      | Inr h \<Rightarrow> group_keys hs ks (append_key g h k))"

fun delete_groups :: "'v Map \<Rightarrow> (nat \<times> key list) list \<Rightarrow> error + 'v Map" where
  "delete_groups s [] = Inr s"
| "delete_groups s ((h, hashKeys) # g) =
     (case lock s h of
        Inl e \<Rightarrow> Inl e
      | Inr u \<Rightarrow> delete_groups (foldl (\<lambda>s' k. remove s' h k) s hashKeys) g)"

definition Delete :: "'v Map \<Rightarrow> key list \<Rightarrow> error + 'v Map" where
  "Delete s keys =
     (case group_keys (hash s) keys [] of
        Inl e \<Rightarrow> Inl e
      | Inr hashes \<Rightarrow> delete_groups s hashes)"

text \<open>
  The callbacks are functions of the caller's own state \<open>'s\<close>, handed in and returned,
  so that the state an operation returns shows how often it ran the callback. A
  callback does not call back into the map (it would wait for the lock it runs under).
  Each operation returns its results, the map and the caller's state.
\<close>

definition DeleteConditional ::
  "('v::zero) Map \<Rightarrow> key \<Rightarrow> ('v \<Rightarrow> 's \<Rightarrow> bool \<times> 's) \<Rightarrow> 's \<Rightarrow> error + ('v \<times> bool) \<times> 'v Map \<times> 's" where
  "DeleteConditional s k calculate st =
     (case locked s k of
        Inl e \<Rightarrow> Inl e
      | Inr h \<Rightarrow>
          (case map_lookup (segment s ! h) k of
             Some v \<Rightarrow>
               (let (condition, st') = calculate v st
                in Inr ((v, False), (if condition then remove s h k else s), st'))
           | None \<Rightarrow> Inr ((0, False), s, st)))"

definition GetOrSet ::
  "('v::zero) Map \<Rightarrow> key \<Rightarrow> ('s \<Rightarrow> 'v \<times> 's) \<Rightarrow> 's \<Rightarrow> error + ('v \<times> bool) \<times> 'v Map \<times> 's" where
  "GetOrSet s k calculate st =
     (case Get s k of
        Inl e \<Rightarrow> Inl e
      | Inr (v, True) \<Rightarrow> Inr ((v, False), s, st)
      | Inr (v, False) \<Rightarrow>
          (case locked s k of
             Inl e \<Rightarrow> Inl e
           | Inr h \<Rightarrow>
               (case map_lookup (segment s ! h) k of
                  Some v' \<Rightarrow> Inr ((v', False), s, st)
                | None \<Rightarrow>
                    (let (v', st') = calculate st
                     in Inr ((v', True), store s h k v', st')))))"

definition GetAndDelete :: "('v::zero) Map \<Rightarrow> key \<Rightarrow> error + ('v \<times> bool) \<times> 'v Map" where
  "GetAndDelete s k =
     (case locked s k of
        Inl e \<Rightarrow> Inl e
      | Inr h \<Rightarrow>
          (case map_lookup (segment s ! h) k of
             Some v \<Rightarrow> Inr ((v, True), remove s h k)
           | None \<Rightarrow> Inr ((0, False), s)))"

definition Update ::
  "'v Map \<Rightarrow> key \<Rightarrow> 'v \<Rightarrow> ('v \<Rightarrow> 's \<Rightarrow> 'v \<times> 's) \<Rightarrow> 's \<Rightarrow> error + ('v \<times> bool) \<times> 'v Map \<times> 's" where
  "Update s k defaultValue calculate st =
     (case locked s k of
        Inl e \<Rightarrow> Inl e
      | Inr h \<Rightarrow>
          (case map_lookup (segment s ! h) k of
             Some v \<Rightarrow>
               (let (value, st') = calculate v st
                in Inr ((value, False), store s h k value, st'))
           | None \<Rightarrow>
               (let (value, st') = calculate defaultValue st
                in Inr ((value, True), store s h k value, st'))))"

definition UpdateExisting ::
  "('v::zero) Map \<Rightarrow> key \<Rightarrow> ('v \<Rightarrow> 's \<Rightarrow> 'v \<times> 's) \<Rightarrow> 's \<Rightarrow> error + ('v \<times> bool) \<times> 'v Map \<times> 's" where
  "UpdateExisting s k calculate st =
     (case locked s k of
        Inl e \<Rightarrow> Inl e
      | Inr h \<Rightarrow>
          (case map_lookup (segment s ! h) k of
             Some v \<Rightarrow>
               (let (value, st') = calculate v st
                in Inr ((value, True), store s h k value, st'))
           | None \<Rightarrow> Inr ((0, False), s, st)))"

subsection \<open>Sequences of operations\<close>

text \<open>
  The operations that can change the map, and \<^verbatim>\<open>Get\<close>, as values, so that what holds
  after any sequence of calls can be stated. \<^verbatim>\<open>Len\<close>, \<^verbatim>\<open>Keys\<close>, \<^verbatim>\<open>Values\<close>, \<^verbatim>\<open>Calculate\<close>
  and \<^verbatim>\<open>Range\<close> only read the segments and are not modelled.
\<close>

datatype ('v, 's) operation =
    OpSet key 'v
  | OpGet key
  | OpDelete "key list"
  | OpDeleteConditional key "'v \<Rightarrow> 's \<Rightarrow> bool \<times> 's"
  | OpGetOrSet key "'s \<Rightarrow> 'v \<times> 's"
  | OpGetAndDelete key
  | OpUpdate key 'v "'v \<Rightarrow> 's \<Rightarrow> 'v \<times> 's"
  | OpUpdateExisting key "'v \<Rightarrow> 's \<Rightarrow> 'v \<times> 's"

fun perform :: "('v::zero, 's) operation \<Rightarrow> 'v Map \<times> 's \<Rightarrow> error + 'v Map \<times> 's" where
  "perform (OpSet k v) (s, st) =
     (case Set s k v of Inl e \<Rightarrow> Inl e | Inr s' \<Rightarrow> Inr (s', st))"
| "perform (OpGet k) (s, st) =
     (case Get s k of Inl e \<Rightarrow> Inl e | Inr r \<Rightarrow> Inr (s, st))"
| "perform (OpDelete ks) (s, st) =
     (case Delete s ks of Inl e \<Rightarrow> Inl e | Inr s' \<Rightarrow> Inr (s', st))"
| "perform (OpDeleteConditional k p) (s, st) =
     (case DeleteConditional s k p st of Inl e \<Rightarrow> Inl e | Inr (r, s', st') \<Rightarrow> Inr (s', st'))"
| "perform (OpGetOrSet k f) (s, st) =
     (case GetOrSet s k f st of Inl e \<Rightarrow> Inl e | Inr (r, s', st') \<Rightarrow> Inr (s', st'))"
| "perform (OpGetAndDelete k) (s, st) =
     (case GetAndDelete s k of Inl e \<Rightarrow> Inl e | Inr (r, s') \<Rightarrow> Inr (s', st))"
| "perform (OpUpdate k d f) (s, st) =
     (case Update s k d f st of Inl e \<Rightarrow> Inl e | Inr (r, s', st') \<Rightarrow> Inr (s', st'))"
| "perform (OpUpdateExisting k f) (s, st) =
     (case UpdateExisting s k f st of Inl e \<Rightarrow> Inl e | Inr (r, s', st') \<Rightarrow> Inr (s', st'))"

text \<open>A sequence of calls stops at the first panic.\<close>

fun run :: "('v::zero, 's) operation list \<Rightarrow> 'v Map \<times> 's \<Rightarrow> error + 'v Map \<times> 's" where
  "run [] c = Inr c"
| "run (op # ops) c = (case perform op c of Inl e \<Rightarrow> Inl e | Inr c' \<Rightarrow> run ops c')"

section \<open>Notions used to state the properties\<close>

text \<open>
  The little-endian encoding of a number in \<open>w\<close> bytes: the lowest byte first, and
  the number taken modulo \<open>256 ^ w\<close>.
\<close>

fun le_bytes :: "nat \<Rightarrow> nat \<Rightarrow> 8 word list" where
  "le_bytes 0 n = []"
| "le_bytes (Suc w) n = word_of_nat n # le_bytes w (n div 256)"

fun le_value :: "8 word list \<Rightarrow> nat" where
  "le_value [] = 0"
| "le_value (b # bs) = unat b + 256 * le_value bs"

text \<open>
  The encoding in the words of the specification: a string is its raw bytes, an integer
  is little-endian in as many bytes as its bit width has (1 for 8 bits, 2 for 16, 4 for
  32, 8 for 64; \<^verbatim>\<open>int\<close> and \<^verbatim>\<open>uint\<close> have 64). It says nothing here on the other keys.
\<close>

fun spec_key_bytes :: "key \<Rightarrow> 8 word list option" where
  "spec_key_bytes (KString s) = Some (map of_char s)"
| "spec_key_bytes (KInt x) = Some (le_bytes 8 (unat x))"
| "spec_key_bytes (KInt8 x) = Some (le_bytes 1 (unat x))"
| "spec_key_bytes (KInt16 x) = Some (le_bytes 2 (unat x))"
| "spec_key_bytes (KInt32 x) = Some (le_bytes 4 (unat x))"
| "spec_key_bytes (KInt64 x) = Some (le_bytes 8 (unat x))"
| "spec_key_bytes (KUint x) = Some (le_bytes 8 (unat x))"
| "spec_key_bytes (KUint8 x) = Some (le_bytes 1 (unat x))"
| "spec_key_bytes (KUint16 x) = Some (le_bytes 2 (unat x))"
| "spec_key_bytes (KUint32 x) = Some (le_bytes 4 (unat x))"
| "spec_key_bytes (KUint64 x) = Some (le_bytes 8 (unat x))"
| "spec_key_bytes (KFloat32 p w) = None"
| "spec_key_bytes (KFloat64 p w) = None"
| "spec_key_bytes KOther = None"

text \<open>
  An operation deletes or overwrites the key \<open>k\<close>, which holds \<open>v\<close>, when it is a
  \<^verbatim>\<open>Set\<close>, \<^verbatim>\<open>Delete\<close>, \<^verbatim>\<open>GetAndDelete\<close>, \<^verbatim>\<open>Update\<close> or \<^verbatim>\<open>UpdateExisting\<close> of a key equal
  to \<open>k\<close>, or a \<^verbatim>\<open>DeleteConditional\<close> of such a key whose predicate holds of \<open>v\<close>.
  \<^verbatim>\<open>Get\<close> and \<^verbatim>\<open>GetOrSet\<close> never do. \<open>undisturbed k v ops c\<close>: no operation of the
  sequence \<open>ops\<close>, run from \<open>c\<close>, deletes or overwrites \<open>k\<close>.
\<close>

fun deletes_or_overwrites :: "('v, 's) operation \<Rightarrow> key \<Rightarrow> 'v \<Rightarrow> 's \<Rightarrow> bool" where
  "deletes_or_overwrites (OpSet k' v') k v st = key_eq k' k"
| "deletes_or_overwrites (OpGet k') k v st = False"
| "deletes_or_overwrites (OpDelete ks) k v st = list_ex (\<lambda>k'. key_eq k' k) ks"
| "deletes_or_overwrites (OpDeleteConditional k' p) k v st = (key_eq k' k \<and> fst (p v st))"
| "deletes_or_overwrites (OpGetOrSet k' f) k v st = False"
| "deletes_or_overwrites (OpGetAndDelete k') k v st = key_eq k' k"
| "deletes_or_overwrites (OpUpdate k' d f) k v st = key_eq k' k"
| "deletes_or_overwrites (OpUpdateExisting k' f) k v st = key_eq k' k"

fun undisturbed ::
  "key \<Rightarrow> 'v \<Rightarrow> ('v::zero, 's) operation list \<Rightarrow> 'v Map \<times> 's \<Rightarrow> bool" where
  "undisturbed k v [] c = True"
| "undisturbed k v (op # ops) c =
     (\<not> deletes_or_overwrites op k v (snd c) \<and>
      (case perform op c of Inl e \<Rightarrow> True | Inr c' \<Rightarrow> undisturbed k v ops c'))"

text \<open>Some segment of the map holds the entry \<open>(k, v)\<close>.\<close>

definition holds :: "'v Map \<Rightarrow> key \<Rightarrow> 'v \<Rightarrow> bool" where
  "holds s k v \<longleftrightarrow> list_ex (\<lambda>seg. (k, v) \<in> set seg) (segment s)"

text \<open>The keys that \<^verbatim>\<open>Delete\<close> has grouped, each with the index of its group.\<close>

definition pairs :: "(nat \<times> key list) list \<Rightarrow> (nat \<times> key) set" where
  "pairs g = {(h, k). \<exists>ks. (h, ks) \<in> set g \<and> k \<in> set ks}"

text \<open>
  The keys the router returns an index for, and the maps in which every index the
  router can return is the index of a segment.
\<close>

definition routable :: "key \<Rightarrow> bool" where
  "routable k = (case key_bytes k of Inl e \<Rightarrow> False | Inr bytes \<Rightarrow> True)"

definition mask_inside :: "'v Map \<Rightarrow> bool" where
  "mask_inside s \<longleftrightarrow> unat (mask_f (hash s)) < length (segment s)"

text \<open>
  The map holds no entry whose key is equal to \<open>k\<close>, in the sense of Go's \<^verbatim>\<open>==\<close>.
\<close>

definition lacks :: "'v Map \<Rightarrow> key \<Rightarrow> bool" where
  "lacks s k \<longleftrightarrow> list_all (\<lambda>seg. list_all (\<lambda>(k', v'). \<not> key_eq k' k) seg) (segment s)"

text \<open>
  What holds of every map that can be built, and is used to prove the properties of
  the operations: no two entries of a segment have equal keys, every entry lies in the
  segment its key is routed to, and every index the router can return is the index of a
  segment.
\<close>

fun distinct_keys :: "'v gomap \<Rightarrow> bool" where
  "distinct_keys [] = True"
| "distinct_keys ((k, v) # m) = (list_all (\<lambda>(k', v'). \<not> key_eq k k') m \<and> distinct_keys m)"

definition well_formed :: "'v Map \<Rightarrow> bool" where
  "well_formed s \<longleftrightarrow>
     mask_inside s \<and>
     (\<forall>i<length (segment s).
        distinct_keys (segment s ! i) \<and>
        (\<forall>(k, v)\<in>set (segment s ! i). Get_hash (hash s) k = Inr i))"

section \<open>Properties of the router\<close>

lemma Log2_small [simp]: "n < 2 \<Longrightarrow> Log2 n = 0"
  by (simp add: Log2.simps)

lemma Log2_step: "2 \<le> n \<Longrightarrow> Log2 n = Suc (Log2 (n div 2))"
  by (simp add: Log2.simps)

lemma Log2_le: "0 < n \<Longrightarrow> 2 ^ Log2 n \<le> n"
proof (induction n rule: Log2.induct)
  case (1 n)
  show ?case
  proof (cases "n < 2")
    case True
    with 1 show ?thesis by simp
  next
    case False
    then have "2 ^ Log2 (n div 2) \<le> n div 2" using 1 by simp
    then show ?thesis using False by (simp add: Log2_step)
  qed
qed

lemmas router_defs = Get_hash_def NewHash_def Segments_def mask_of_def Sum32_def Write_def
  offset32_def prime32_def StringToBytes_def PutUint16_def PutUint32_def PutUint64_def Log2.simps

subsection \<open>The mask\<close>

lemma unat_ucast_16_32: "unat (ucast (m::16 word) :: 32 word) = unat m"
proof -
  have "unat m < 2 ^ 16" using unsigned_less [of m] by simp
  then have "unat m < 2 ^ 32" by simp
  then show ?thesis by (simp add: unsigned_ucast_eq take_bit_nat_eq_self)
qed

lemma unat_and_mask_le: "unat ((x::32 word) AND ucast (m::16 word)) \<le> unat m"
proof -
  have "unat (x AND ucast m) \<le> unat (ucast m :: 32 word)"
    by (rule word_and_le1 [THEN word_le_nat_alt [THEN iffD1]])
  then show ?thesis by (simp add: unat_ucast_16_32)
qed

lemma unat_mask16: "unat (mask b :: 16 word) = 2 ^ min b 16 - 1"
proof -
  have "uint (mask b :: 16 word) = mask (min 16 b)"
    by (simp add: uint_mask_eq)
  also have "\<dots> = 2 ^ min b 16 - 1"
    by (simp only: mask_eq_exp_minus_1 min.commute)
  finally have "uint (mask b :: 16 word) = 2 ^ min b 16 - 1" .
  then show ?thesis by (simp add: unat_eq_nat_uint nat_diff_distrib nat_power_eq)
qed

lemma mask_of_less:
  assumes "1 \<le> n"
  shows "int (unat (mask_of n)) < n"
proof -
  define L where "L = Log2 (nat n)"
  define b where "b = unat (word_of_nat L :: 16 word)"
  have pos: "0 < nat n" using assms by simp
  have le: "2 ^ L \<le> nat n" unfolding L_def by (rule Log2_le [OF pos])
  have m: "mask_of n = mask b"
    using assms by (simp add: mask_of_def b_def L_def max_def mask_eq_exp_minus_1)
  have "(2::nat) ^ min b 16 \<le> 2 ^ L"
  proof (cases "L < 16")
    case True
    then have "b = L" by (simp add: b_def unat_of_nat)
    then show ?thesis by simp
  next
    case False
    then have "min b 16 \<le> L" by simp
    then show ?thesis by (rule power_increasing) simp
  qed
  with le have "2 ^ min b 16 \<le> nat n" by (rule order_trans [rotated])
  moreover have "(0::nat) < 2 ^ min b 16" by simp
  ultimately have "2 ^ min b 16 - 1 < nat n" by linarith
  then have "unat (mask_of n) < nat n" by (simp only: m unat_mask16)
  then show ?thesis using assms by linarith
qed

lemma mask_of_unsegmented: "n \<le> 1 \<Longrightarrow> mask_of n = 0"
  by (simp add: mask_of_def max_def)

lemma Get_hash_le_mask: "Get_hash s k = Inr h \<Longrightarrow> h \<le> unat (mask_f s)"
  by (auto simp: Get_hash_def unat_and_mask_le split: sum.splits)

subsection \<open>The bytes that are hashed\<close>

lemma le_value_le_bytes: "le_value (le_bytes w n) = n mod 256 ^ w"
proof (induction w arbitrary: n)
  case 0
  show ?case by simp
next
  case (Suc w)
  have "unat (word_of_nat n :: 8 word) = n mod 256" by (simp add: unat_of_nat)
  then show ?case by (simp add: Suc mod_mult2_eq)
qed

lemma length_le_bytes [simp]: "length (le_bytes w n) = w"
  by (induction w arbitrary: n) simp_all

lemma byte_of:
  "(ucast (drop_bit j (v :: 'a::len word)) :: 8 word) = word_of_nat (unat v div 2 ^ j)"
proof -
  have "unat (drop_bit j v) = drop_bit j (unat v)"
    by (rule unat_drop_bit_eq)
  also have "\<dots> = unat v div 2 ^ j"
    by (rule drop_bit_eq_div)
  finally have "unat (drop_bit j v) = unat v div 2 ^ j" .
  moreover have "(ucast (drop_bit j v) :: 8 word) = word_of_nat (unat (drop_bit j v))"
    by simp
  ultimately show ?thesis by (simp only:)
qed

lemma le_bytes_1: "le_bytes 1 n = [word_of_nat n]"
  by simp

lemma le_bytes_2: "le_bytes 2 n = [word_of_nat n, word_of_nat (n div 256)]"
proof -
  have "le_bytes 2 n = le_bytes (Suc (Suc 0)) n" by (simp only: numeral_2_eq_2)
  then show ?thesis by (simp only: le_bytes.simps)
qed

lemma le_bytes_4:
  "le_bytes 4 n = [word_of_nat n, word_of_nat (n div 256), word_of_nat (n div 256 div 256),
     word_of_nat (n div 256 div 256 div 256)]"
proof -
  have "(4::nat) = Suc (Suc (Suc (Suc 0)))" by simp
  then show ?thesis by (simp only: le_bytes.simps)
qed

lemma le_bytes_8:
  "le_bytes 8 n = [word_of_nat n, word_of_nat (n div 256), word_of_nat (n div 256 div 256),
     word_of_nat (n div 256 div 256 div 256), word_of_nat (n div 256 div 256 div 256 div 256),
     word_of_nat (n div 256 div 256 div 256 div 256 div 256),
     word_of_nat (n div 256 div 256 div 256 div 256 div 256 div 256),
     word_of_nat (n div 256 div 256 div 256 div 256 div 256 div 256 div 256)]"
proof -
  have "(8::nat) = Suc (Suc (Suc (Suc (Suc (Suc (Suc (Suc 0)))))))" by simp
  then show ?thesis by (simp only: le_bytes.simps)
qed

lemma PutUint16_le: "PutUint16 v = le_bytes 2 (unat v)"
  unfolding PutUint16_def le_bytes_2 byte_of by simp

lemma PutUint32_le: "PutUint32 v = le_bytes 4 (unat v)"
  unfolding PutUint32_def le_bytes_4 byte_of by (simp add: div_mult2_eq [symmetric])

lemma PutUint64_le: "PutUint64 v = le_bytes 8 (unat v)"
  unfolding PutUint64_def le_bytes_8 byte_of by (simp add: div_mult2_eq [symmetric])

lemma unat_scast:
  "unat (scast (x :: 'a::len word) :: 'b::len word) = nat (sint x mod 2 ^ LENGTH('b))"
proof -
  have "uint (scast x :: 'b word) = sint x mod 2 ^ LENGTH('b)"
    by (simp only: scast_eq uint_word_of_int)
  then show ?thesis by (simp only: unat_eq_nat_uint)
qed

lemma unat_twos_8_16: "unat (scast (x :: 8 word) :: 16 word) = nat (sint x mod 2 ^ 16)"
  using unat_scast [of x, where 'b = 16] by simp

lemma unat_twos_16: "unat (x :: 16 word) = nat (sint x mod 2 ^ 16)"
  using unat_scast [of x, where 'b = 16] by simp

lemma unat_twos_32: "unat (x :: 32 word) = nat (sint x mod 2 ^ 32)"
  using unat_scast [of x, where 'b = 32] by simp

lemma unat_twos_64: "unat (x :: 64 word) = nat (sint x mod 2 ^ 64)"
  using unat_scast [of x, where 'b = 64] by simp

lemma unat_twos_64_32: "unat (ucast (x :: 64 word) :: 32 word) = nat (sint x mod 2 ^ 32)"
proof -
  have "(ucast x :: 32 word) = scast x"
    by (simp add: down_cast_same is_down)
  then show ?thesis using unat_scast [of x, where 'b = 32] by simp
qed

subsection \<open>The claims on the router\<close>

text \<open>
  Claim C2. The claim: \<^verbatim>\<open>Hash.Get\<close> returns an index, without panicking, for every value
  of every supported key type, the unsigned integers of all widths among them. The
  code does not: on a \<^verbatim>\<open>uint32\<close> key (and likewise \<^verbatim>\<open>uint\<close>, \<^verbatim>\<open>uint8\<close>, \<^verbatim>\<open>uint16\<close>) the
  branch calls \<^verbatim>\<open>reflect.Value.Int\<close>, which panics on an unsigned kind. The theorem
  evaluates the router of 8 segments on the \<^verbatim>\<open>uint32\<close> key 1.
\<close>

theorem Get_hash_uint32_panics:
  "Get_hash (NewHash 8) (KUint32 1) = Inl ReflectValueInt"
  by (simp add: Get_hash_def)

text \<open>The keys the router panics on are exactly those, whatever the router.\<close>

lemma Get_hash_panics_iff:
  "(\<exists>e. Get_hash s k = Inl e) \<longleftrightarrow>
     (\<exists>x. k = KUint x) \<or> (\<exists>x. k = KUint8 x) \<or> (\<exists>x. k = KUint16 x) \<or> (\<exists>x. k = KUint32 x)
     \<or> k = KOther"
  by (cases k) (simp_all add: Get_hash_def)

text \<open>
  Claim C4, as stated: the bytes hashed for an integer key are its little-endian
  encoding in as many bytes as its bit width has, 1 byte for an 8-bit integer. It fails
  on the \<^verbatim>\<open>int8\<close> key 1, which is hashed as the two bytes 1, 0.
\<close>

theorem key_bytes_int8_counterexample:
  "key_bytes (KInt8 1) = Inr [1, 0] \<and> spec_key_bytes (KInt8 1) = Some [1]
   \<and> key_bytes (KInt8 1) \<noteq> Inr (the (spec_key_bytes (KInt8 1)))"
  by (simp add: PutUint16_def)

text \<open>
  Claim C4, amended. The bytes hashed are: for a string its raw bytes; for an \<^verbatim>\<open>int8\<close>
  and an \<^verbatim>\<open>int16\<close> the 2-byte little-endian encoding of the value in 16-bit two's
  complement; for an \<^verbatim>\<open>int\<close> and an \<^verbatim>\<open>int32\<close> the 4-byte little-endian encoding of the
  value's low 32 bits in two's complement; for an \<^verbatim>\<open>int64\<close> and a \<^verbatim>\<open>uint64\<close> the 8-byte
  little-endian encoding of the value. (The other unsigned kinds are left out: the
  router panics on them, see C2.)
\<close>

theorem key_bytes_encoding:
  "key_bytes (KString s) = Inr (map of_char s)
   \<and> key_bytes (KInt8 a) = Inr (le_bytes 2 (nat (sint a mod 2 ^ 16)))
   \<and> key_bytes (KInt16 b) = Inr (le_bytes 2 (nat (sint b mod 2 ^ 16)))
   \<and> key_bytes (KInt c) = Inr (le_bytes 4 (nat (sint c mod 2 ^ 32)))
   \<and> key_bytes (KInt32 d) = Inr (le_bytes 4 (nat (sint d mod 2 ^ 32)))
   \<and> key_bytes (KInt64 e) = Inr (le_bytes 8 (nat (sint e mod 2 ^ 64)))
   \<and> key_bytes (KUint64 f) = Inr (le_bytes 8 (unat f))"
proof -
  have "key_bytes (KString s) = Inr (map of_char s)"
    by (simp add: StringToBytes_def)
  moreover have "key_bytes (KInt8 a) = Inr (le_bytes 2 (nat (sint a mod 2 ^ 16)))"
    using unat_twos_8_16 [of a] by (simp add: PutUint16_le)
  moreover have "key_bytes (KInt16 b) = Inr (le_bytes 2 (nat (sint b mod 2 ^ 16)))"
    using unat_twos_16 [of b] by (simp add: PutUint16_le)
  moreover have "key_bytes (KInt c) = Inr (le_bytes 4 (nat (sint c mod 2 ^ 32)))"
    using unat_twos_64_32 [of c] by (simp add: PutUint32_le)
  moreover have "key_bytes (KInt32 d) = Inr (le_bytes 4 (nat (sint d mod 2 ^ 32)))"
    using unat_twos_32 [of d] by (simp add: PutUint32_le)
  moreover have "key_bytes (KInt64 e) = Inr (le_bytes 8 (nat (sint e mod 2 ^ 64)))"
    using unat_twos_64 [of e] by (simp add: PutUint64_le)
  moreover have "key_bytes (KUint64 f) = Inr (le_bytes 8 (unat f))"
    by (simp add: PutUint64_le)
  ultimately show ?thesis by (simp only: simp_thms)
qed

text \<open>
  Claim C5, as stated: for every segment count the index lies in \<open>[0, segmentCount)\<close>.
  It fails for the count 0: the router built by \<^verbatim>\<open>NewHash(0)\<close> routes \<^verbatim>\<open>"test-1"\<close> to 0
  (as \<^verbatim>\<open>TestStringHash\<close> asserts), and 0 is not below its segment count 0.
\<close>

theorem route_count_zero_counterexample:
  "Get_hash (NewHash 0) (KString ''test-1'') = Inr 0
   \<and> Segments (NewHash 0) = 0
   \<and> \<not> (int 0 < Segments (NewHash 0))"
  by (simp add: router_defs)

text \<open>
  Claim C5, amended. \<^verbatim>\<open>Get\<close> is a function of the router's two fields and the key, and
  changes neither, so every call on a key gives the same result, on this router and on
  any other built with the same count. For every segment count \<open>n\<close> and every key the
  router returns an index for, the index lies in \<open>[0, max n 1)\<close>: in \<open>[0, n)\<close> when
  \<open>n \<ge> 1\<close>, and it is 0 when \<open>n \<le> 1\<close>.
\<close>

theorem route_index_bound:
  assumes "Get_hash (NewHash n) k = Inr h"
  shows "0 \<le> int h \<and> int h < max n 1 \<and> (n \<le> 1 \<longrightarrow> h = 0)"
proof -
  have le: "h \<le> unat (mask_of n)"
    using Get_hash_le_mask [OF assms] by (simp add: NewHash_def)
  show ?thesis
  proof (cases "1 \<le> n")
    case True
    from mask_of_less [OF True] le have "int h < n" by linarith
    moreover have "n \<le> 1 \<longrightarrow> h = 0"
      using le True mask_of_unsegmented [of n] by auto
    ultimately show ?thesis using True by simp
  next
    case False
    then have "mask_of n = 0" by (simp add: mask_of_unsegmented)
    with le False show ?thesis by simp
  qed
qed

theorem route_index_bound_witness:
  "Get_hash (NewHash 8) (KInt 1) = Inr 2 \<and> 0 \<le> int 2 \<and> int 2 < max 8 1"
proof -
  have h: "Get_hash (NewHash 8) (KInt 1) = Inr 2" by (simp add: router_defs)
  from route_index_bound [OF h] h show ?thesis by simp
qed

text \<open>
  Claim C6. The router built for 8 segments sends the strings \<^verbatim>\<open>"test-1"\<close> to
  \<^verbatim>\<open>"test-6"\<close> to the indices 3, 0, 1, 6, 7, 4 and the \<^verbatim>\<open>int\<close> keys 1 to 8 to the indices
  2, 7, 4, 1, 6, 3, 0, 5. The router is the value \<open>NewHash 8\<close> and \<^verbatim>\<open>Get\<close> a function of
  it and of the key, so the indices are the same on every call and on every router
  built with the count 8.
\<close>

theorem route_test_values:
  "map (Get_hash (NewHash 8))
     [KString ''test-1'', KString ''test-2'', KString ''test-3'',
      KString ''test-4'', KString ''test-5'', KString ''test-6'']
     = map Inr [3, 0, 1, 6, 7, 4]
   \<and> map (Get_hash (NewHash 8)) [KInt 1, KInt 2, KInt 3, KInt 4, KInt 5, KInt 6, KInt 7, KInt 8]
     = map Inr [2, 7, 4, 1, 6, 3, 0, 5]"
  by (simp add: router_defs)

section \<open>Properties of the map\<close>

subsection \<open>Key equality and the built-in map\<close>

lemma f32_eq_sym: "f32_eq p q \<Longrightarrow> f32_eq q p"
  by (auto simp: f32_eq_def)

lemma f32_eq_trans: "f32_eq p q \<Longrightarrow> f32_eq q r \<Longrightarrow> f32_eq p r"
  by (auto simp: f32_eq_def)

lemma f64_eq_sym: "f64_eq p q \<Longrightarrow> f64_eq q p"
  by (auto simp: f64_eq_def)

lemma f64_eq_trans: "f64_eq p q \<Longrightarrow> f64_eq q r \<Longrightarrow> f64_eq p r"
  by (auto simp: f64_eq_def)

lemma key_eq_sym: "key_eq a b \<Longrightarrow> key_eq b a"
  by (cases a; cases b) (auto simp: key_eq_def dest: f32_eq_sym f64_eq_sym)

lemma key_eq_trans: "key_eq a b \<Longrightarrow> key_eq b c \<Longrightarrow> key_eq a c"
  by (cases b; cases a; cases c) (auto simp: key_eq_def dest: f32_eq_trans f64_eq_trans)

lemma key_eq_refl_left: "key_eq a b \<Longrightarrow> key_eq a a"
  by (blast intro: key_eq_sym key_eq_trans)

lemma key_eq_refl_right: "key_eq a b \<Longrightarrow> key_eq b b"
  by (blast intro: key_eq_sym key_eq_trans)

lemma lookup_Some_refl: "map_lookup m k = Some v \<Longrightarrow> key_eq k k"
  by (induction m) (auto split: if_splits dest: key_eq_refl_right)

lemma lookup_assign_same: "key_eq k k \<Longrightarrow> map_lookup (map_assign m k v) k = Some v"
  by (induction m) auto

lemma lookup_assign_other:
  "\<not> key_eq k k' \<Longrightarrow> map_lookup (map_assign m k v) k' = map_lookup m k'"
proof (induction m)
  case Nil
  then show ?case by simp
next
  case (Cons e m)
  obtain k0 v0 where e: "e = (k0, v0)" by (cases e)
  show ?case
  proof (cases "key_eq k0 k")
    case True
    then have "\<not> key_eq k0 k'"
      using Cons.prems by (blast intro: key_eq_sym key_eq_trans)
    with True Cons.prems show ?thesis by (simp add: e)
  next
    case False
    with Cons show ?thesis by (simp add: e)
  qed
qed

lemma lookup_delete:
  "map_lookup (map_delete m k) k' = (if key_eq k k' then None else map_lookup m k')"
proof (induction m)
  case Nil
  then show ?case by (simp add: map_delete_def)
next
  case (Cons e m)
  obtain k0 v0 where e: "e = (k0, v0)" by (cases e)
  have IH: "map_lookup (filter (\<lambda>(k', v'). \<not> key_eq k' k) m) k'
      = (if key_eq k k' then None else map_lookup m k')"
    using Cons.IH by (simp add: map_delete_def)
  show ?case
  proof (cases "key_eq k0 k")
    case True
    then have "\<not> key_eq k k' \<Longrightarrow> \<not> key_eq k0 k'"
      by (blast intro: key_eq_sym key_eq_trans)
    with True IH show ?thesis by (auto simp: e map_delete_def)
  next
    case False
    then have "key_eq k k' \<Longrightarrow> \<not> key_eq k0 k'"
      by (blast intro: key_eq_sym key_eq_trans)
    with False IH show ?thesis by (auto simp: e map_delete_def)
  qed
qed

lemma delete_absent: "map_lookup m k = None \<Longrightarrow> map_delete m k = m"
  by (induction m) (auto simp: map_delete_def split: if_splits)

lemma assign_holds: "(k, v) \<in> set (map_assign m k v)"
  by (induction m) auto

lemma lookup_assign:
  "map_lookup (map_assign m k v) k' = (if key_eq k k' then Some v else map_lookup m k')"
proof (induction m)
  case Nil
  show ?case by simp
next
  case (Cons e m)
  obtain k0 v0 where e: "e = (k0, v0)" by (cases e)
  show ?case
  proof (cases "key_eq k0 k")
    case True
    then have "key_eq k0 k' \<longleftrightarrow> key_eq k k'"
      by (blast intro: key_eq_sym key_eq_trans)
    with True show ?thesis by (simp add: e)
  next
    case False
    then have "key_eq k k' \<Longrightarrow> \<not> key_eq k0 k'"
      by (blast intro: key_eq_sym key_eq_trans)
    with False Cons.IH show ?thesis by (auto simp: e)
  qed
qed

lemma lookup_cong: "key_eq a b \<Longrightarrow> map_lookup m a = map_lookup m b"
proof (induction m)
  case Nil
  show ?case by simp
next
  case (Cons e m)
  obtain k0 v0 where e: "e = (k0, v0)" by (cases e)
  have "key_eq k0 a \<longleftrightarrow> key_eq k0 b"
    using Cons.prems by (blast intro: key_eq_sym key_eq_trans)
  with Cons show ?case by (simp add: e)
qed

lemma lookup_not_refl: "\<not> key_eq k k \<Longrightarrow> map_lookup m k = None"
  using lookup_Some_refl [of m k] by (cases "map_lookup m k") auto

subsection \<open>Routing and locking\<close>

lemma locked_iff:
  "locked s k = Inr h \<longleftrightarrow> Get_hash (hash s) k = Inr h \<and> h < length (segment s)"
  by (auto simp: locked_def lock_def split: sum.splits if_splits)

lemma rLocked_locked: "rLocked s k = locked s k"
  by (simp add: rLocked_def locked_def rLock_def lock_def split: sum.splits)

lemma locked_in_range: "locked s k = Inr h \<Longrightarrow> h < length (segment s)"
  by (simp add: locked_iff)

lemma locked_store [simp]: "locked (store s h k v) k' = locked s k'"
  by (simp add: locked_def lock_def store_def split: sum.splits)

lemma locked_remove [simp]: "locked (remove s h k) k' = locked s k'"
  by (simp add: locked_def lock_def remove_def split: sum.splits)

lemma Get_alt:
  "Get s k =
     (case locked s k of
        Inl e \<Rightarrow> Inl e
      | Inr h \<Rightarrow>
          (case map_lookup (segment s ! h) k of
             Some v \<Rightarrow> Inr (v, True)
           | None \<Rightarrow> Inr (0, False)))"
  by (simp add: Get_def rLocked_locked)

lemma Get_present_iff:
  "Get s k = Inr (v, True) \<longleftrightarrow> (\<exists>h. locked s k = Inr h \<and> map_lookup (segment s ! h) k = Some v)"
  by (auto simp: Get_alt split: sum.splits option.splits)

lemma Get_absent_iff:
  "Get s k = Inr (x, False) \<longleftrightarrow>
     x = 0 \<and> (\<exists>h. locked s k = Inr h \<and> map_lookup (segment s ! h) k = None)"
  by (auto simp: Get_alt split: sum.splits option.splits)

lemma Get_returns_iff: "(\<exists>r. Get s k = Inr r) \<longleftrightarrow> (\<exists>h. locked s k = Inr h)"
  by (auto simp: Get_alt split: sum.splits option.splits)

lemma segment_store: "segment (store s h k v) = (segment s)[h := map_assign (segment s ! h) k v]"
  by (simp add: store_def)

lemma segment_remove: "segment (remove s h k) = (segment s)[h := map_delete (segment s ! h) k]"
  by (simp add: remove_def)

lemma hash_store [simp]: "hash (store s h k v) = hash s"
  by (simp add: store_def)

lemma hash_remove [simp]: "hash (remove s h k) = hash s"
  by (simp add: remove_def)

lemma Get_store:
  "h < length (segment s) \<Longrightarrow>
   Get (store s h k v) k' =
     (if locked s k' = Inr h \<and> key_eq k k' then Inr (v, True) else Get s k')"
  by (auto simp: Get_alt segment_store lookup_assign nth_list_update
      dest: locked_in_range split: sum.splits option.splits)

lemma Get_remove:
  "h < length (segment s) \<Longrightarrow>
   Get (remove s h k) k' =
     (if locked s k' = Inr h \<and> key_eq k k' then Inr (0, False) else Get s k')"
  by (auto simp: Get_alt segment_remove lookup_delete nth_list_update
      dest: locked_in_range split: sum.splits option.splits)

subsection \<open>The single-key operations\<close>

lemma remove_absent:
  "map_lookup (segment s ! h) k = None \<Longrightarrow> remove s h k = s"
  by (simp add: remove_def delete_absent)

lemma holds_store: "h < length (segment s) \<Longrightarrow> holds (store s h k v) k v"
proof -
  assume "h < length (segment s)"
  then have "map_assign (segment s ! h) k v \<in> set (segment (store s h k v))"
    by (simp add: segment_store set_update_memI)
  then show ?thesis
    unfolding holds_def list_ex_iff by (rule bexI [rotated]) (rule assign_holds)
qed

text \<open>
  \<^verbatim>\<open>DeleteConditional\<close>, on any map and key, in terms of what \<^verbatim>\<open>Get\<close> reports. When
  \<^verbatim>\<open>Get\<close> finds \<open>k\<close> with the value \<open>v\<close>, the call runs \<open>p v\<close> once, returns \<open>(v, false)\<close>,
  removes the entry when \<open>p v\<close> is true and leaves the map as it is otherwise. When
  \<^verbatim>\<open>Get\<close> reports \<open>k\<close> missing, it returns \<open>(zero, false)\<close>, changes nothing and does not
  run \<open>p\<close>.
\<close>

lemma DeleteConditional_Get:
  "(Get s k = Inr (v, True) \<longrightarrow>
      (\<exists>s'. DeleteConditional s k p st = Inr ((v, False), s', snd (p v st))
         \<and> (if fst (p v st) then Get s' k = Inr (0, False) else s' = s)
         \<and> (\<forall>k'. \<not> key_eq k k' \<longrightarrow> Get s' k' = Get s k')))
   \<and> (Get s k = Inr (0, False) \<longrightarrow> DeleteConditional s k p st = Inr ((0, False), s, st))"
proof (intro conjI impI)
  assume "Get s k = Inr (v, True)"
  then obtain h where h: "locked s k = Inr h" and l: "map_lookup (segment s ! h) k = Some v"
    by (auto simp: Get_present_iff)
  have r: "h < length (segment s)" using h by (rule locked_in_range)
  have kk: "key_eq k k" using l by (rule lookup_Some_refl)
  show "\<exists>s'. DeleteConditional s k p st = Inr ((v, False), s', snd (p v st))
         \<and> (if fst (p v st) then Get s' k = Inr (0, False) else s' = s)
         \<and> (\<forall>k'. \<not> key_eq k k' \<longrightarrow> Get s' k' = Get s k')"
  proof (cases "fst (p v st)")
    case True
    then have "DeleteConditional s k p st = Inr ((v, False), remove s h k, snd (p v st))"
      by (simp add: DeleteConditional_def h l split_beta)
    with True h kk r show ?thesis by (simp add: Get_remove)
  next
    case False
    then have "DeleteConditional s k p st = Inr ((v, False), s, snd (p v st))"
      by (simp add: DeleteConditional_def h l split_beta)
    with False show ?thesis by simp
  qed
next
  assume "Get s k = Inr (0, False)"
  then obtain h where "locked s k = Inr h" and "map_lookup (segment s ! h) k = None"
    by (auto simp: Get_absent_iff)
  then show "DeleteConditional s k p st = Inr ((0, False), s, st)"
    by (simp add: DeleteConditional_def)
qed

lemmas map_defs = Get_def Set_def rLocked_def locked_def rLock_def lock_def store_def remove_def
  key_eq_def map_delete_def

text \<open>
  \<^verbatim>\<open>Update\<close> in the same terms: \<open>fn\<close> runs once, on the value \<^verbatim>\<open>Get\<close> finds or on the
  default; a segment holds the new entry and \<^verbatim>\<open>Get\<close> finds it (unless the key is a NaN).
\<close>

lemma Update_Get:
  "(Get s k = Inr (cur, True) \<longrightarrow>
      (\<exists>s'. Update s k d f st = Inr ((fst (f cur st), False), s', snd (f cur st))
         \<and> holds s' k (fst (f cur st))
         \<and> Get s' k = Inr (fst (f cur st), True)
         \<and> (\<forall>k'. \<not> key_eq k k' \<longrightarrow> Get s' k' = Get s k')))
   \<and> (Get s k = Inr (0, False) \<longrightarrow>
      (\<exists>s'. Update s k d f st = Inr ((fst (f d st), True), s', snd (f d st))
         \<and> holds s' k (fst (f d st))
         \<and> (key_eq k k \<longrightarrow> Get s' k = Inr (fst (f d st), True))
         \<and> (\<forall>k'. \<not> key_eq k k' \<longrightarrow> Get s' k' = Get s k')))"
proof (intro conjI impI)
  assume "Get s k = Inr (cur, True)"
  then obtain h where h: "locked s k = Inr h" and l: "map_lookup (segment s ! h) k = Some cur"
    by (auto simp: Get_present_iff)
  have r: "h < length (segment s)" using h by (rule locked_in_range)
  have kk: "key_eq k k" using l by (rule lookup_Some_refl)
  have "Update s k d f st
      = Inr ((fst (f cur st), False), store s h k (fst (f cur st)), snd (f cur st))"
    by (simp add: Update_def h l split_beta)
  with h kk r
  show "\<exists>s'. Update s k d f st = Inr ((fst (f cur st), False), s', snd (f cur st))
         \<and> holds s' k (fst (f cur st))
         \<and> Get s' k = Inr (fst (f cur st), True)
         \<and> (\<forall>k'. \<not> key_eq k k' \<longrightarrow> Get s' k' = Get s k')"
    by (simp add: Get_store holds_store)
next
  assume "Get s k = Inr (0, False)"
  then obtain h where h: "locked s k = Inr h" and l: "map_lookup (segment s ! h) k = None"
    by (auto simp: Get_absent_iff)
  have r: "h < length (segment s)" using h by (rule locked_in_range)
  have "Update s k d f st
      = Inr ((fst (f d st), True), store s h k (fst (f d st)), snd (f d st))"
    by (simp add: Update_def h l split_beta)
  with h r
  show "\<exists>s'. Update s k d f st = Inr ((fst (f d st), True), s', snd (f d st))
         \<and> holds s' k (fst (f d st))
         \<and> (key_eq k k \<longrightarrow> Get s' k = Inr (fst (f d st), True))
         \<and> (\<forall>k'. \<not> key_eq k k' \<longrightarrow> Get s' k' = Get s k')"
    by (simp add: Get_store holds_store)
qed

text \<open>
  \<^verbatim>\<open>GetOrSet\<close> in the same terms: the supplier runs only when \<^verbatim>\<open>Get\<close> reports the key
  missing, and then once.
\<close>

lemma GetOrSet_Get:
  "(Get s k = Inr (v, True) \<longrightarrow> GetOrSet s k f st = Inr ((v, False), s, st))
   \<and> (Get s k = Inr (0, False) \<longrightarrow>
      (\<exists>s'. GetOrSet s k f st = Inr ((fst (f st), True), s', snd (f st))
         \<and> holds s' k (fst (f st))
         \<and> (key_eq k k \<longrightarrow> Get s' k = Inr (fst (f st), True))
         \<and> (\<forall>k'. \<not> key_eq k k' \<longrightarrow> Get s' k' = Get s k')))"
proof (intro conjI impI)
  assume "Get s k = Inr (v, True)"
  then show "GetOrSet s k f st = Inr ((v, False), s, st)"
    by (simp add: GetOrSet_def)
next
  assume g: "Get s k = Inr (0, False)"
  then obtain h where h: "locked s k = Inr h" and l: "map_lookup (segment s ! h) k = None"
    by (auto simp: Get_absent_iff)
  have r: "h < length (segment s)" using h by (rule locked_in_range)
  have "GetOrSet s k f st = Inr ((fst (f st), True), store s h k (fst (f st)), snd (f st))"
    by (simp add: GetOrSet_def g h l split_beta)
  with h r
  show "\<exists>s'. GetOrSet s k f st = Inr ((fst (f st), True), s', snd (f st))
         \<and> holds s' k (fst (f st))
         \<and> (key_eq k k \<longrightarrow> Get s' k = Inr (fst (f st), True))
         \<and> (\<forall>k'. \<not> key_eq k k' \<longrightarrow> Get s' k' = Get s k')"
    by (simp add: Get_store holds_store)
qed

subsection \<open>Construction\<close>

lemma NewSegmentedMap_one:
  "NewSegmentedMap 1 c = Inr \<lparr>segment = [[]], hash = NewHash 1, segmented = False\<rparr>"
  by (simp add: NewSegmentedMap_def NewHash_def Segments_def)

lemma NewSegmentedMap_segments:
  "0 \<le> n \<Longrightarrow> \<exists>s. NewSegmentedMap n c = Inr s \<and> int (length (segment s)) = n
     \<and> hash s = NewHash n \<and> (segmented s \<longleftrightarrow> 1 < n)"
  by (simp add: NewSegmentedMap_def NewHash_def Segments_def)

lemma NewSegmentedMap_negative: "n < 0 \<Longrightarrow> NewSegmentedMap n c = Inl MakeSliceLen"
  by (simp add: NewSegmentedMap_def)

lemma unsegmented_route: "n \<le> 1 \<Longrightarrow> Get_hash (NewHash n) k = Inr h \<Longrightarrow> h = 0"
  using Get_hash_le_mask [of "NewHash n" k h] by (simp add: NewHash_def mask_of_unsegmented)

text \<open>
  Claim C3. The claim: a map constructed with a segment count of 0 holds one segment,
  as one constructed with the count 1 does, and its operations behave as on any other
  map. The code does not do this for the count 0: \<^verbatim>\<open>NewSegmentedMap(0, 1)\<close> makes the
  slices with \<^verbatim>\<open>make(..., segmentCount)\<close>, so the map holds no segment, while its router
  sends every key to the index 0; \<^verbatim>\<open>Set\<close> and \<^verbatim>\<open>Get\<close> then index outside the slice
  and panic. The theorem evaluates the construction, the router, \<^verbatim>\<open>Set(1, 5)\<close> and
  \<^verbatim>\<open>Get(1)\<close> on that map.
\<close>

theorem NewSegmentedMap_zero_panics:
  "(NewSegmentedMap 0 1 :: error + int Map)
     = Inr \<lparr>segment = [], hash = NewHash 0, segmented = False\<rparr>
   \<and> Get_hash (NewHash 0) (KInt 1) = Inr 0
   \<and> Set \<lparr>segment = [], hash = NewHash 0, segmented = False\<rparr> (KInt 1) (5::int)
     = Inl IndexOutOfRange
   \<and> Get \<lparr>segment = ([] :: int gomap list), hash = NewHash 0, segmented = False\<rparr> (KInt 1)
     = Inl IndexOutOfRange"
  by (simp add: NewSegmentedMap_def map_defs router_defs)

subsection \<open>Delete\<close>

lemma length_segment_remove [simp]: "length (segment (remove s h k)) = length (segment s)"
  by (simp add: segment_remove)

lemma length_segment_store [simp]: "length (segment (store s h k v)) = length (segment s)"
  by (simp add: segment_store)

lemma remove_keys:
  "h < length (segment s) \<Longrightarrow>
   hash (foldl (\<lambda>s' k. remove s' h k) s ks) = hash s
   \<and> length (segment (foldl (\<lambda>s' k. remove s' h k) s ks)) = length (segment s)
   \<and> (\<forall>k'. locked (foldl (\<lambda>s' k. remove s' h k) s ks) k' = locked s k')
   \<and> (\<forall>k'. Get (foldl (\<lambda>s' k. remove s' h k) s ks) k' =
        (if locked s k' = Inr h \<and> (\<exists>k\<in>set ks. key_eq k k') then Inr (0, False) else Get s k'))"
proof (induction ks arbitrary: s)
  case Nil
  show ?case by simp
next
  case (Cons k ks)
  have r: "h < length (segment (remove s h k))" using Cons.prems by simp
  show ?case
    using Cons.IH [OF r] Cons.prems by (auto simp: Get_remove)
qed

lemma remove_keys_absent:
  "\<forall>k\<in>set ks. map_lookup (segment s ! h) k = None \<Longrightarrow>
   foldl (\<lambda>s' k. remove s' h k) s ks = s"
  by (induction ks) (simp_all add: remove_absent)

lemma pairs_Nil [simp]: "pairs [] = {}"
  by (simp add: pairs_def)

lemma pairs_Cons: "pairs ((h, ks) # g) = (\<lambda>k. (h, k)) ` set ks \<union> pairs g"
  by (auto simp: pairs_def)

lemma pairs_append_key: "pairs (append_key g h k) = insert (h, k) (pairs g)"
  by (induction g h k rule: append_key.induct) (auto simp: pairs_Cons)

lemma group_keys_pairs:
  "group_keys hs ks g = Inr g' \<Longrightarrow>
   pairs g' = pairs g \<union> {(h, k). k \<in> set ks \<and> Get_hash hs k = Inr h}"
proof (induction ks arbitrary: g)
  case Nil
  then show ?case by simp
next
  case (Cons k ks)
  then obtain h where h: "Get_hash hs k = Inr h"
    and g: "group_keys hs ks (append_key g h k) = Inr g'"
    by (auto split: sum.splits)
  from Cons.IH [OF g] h show ?case
    by (auto simp: pairs_append_key)
qed

lemma group_keys_total:
  "\<forall>k\<in>set ks. \<exists>h. Get_hash hs k = Inr h \<Longrightarrow> \<exists>g'. group_keys hs ks g = Inr g'"
  by (induction ks arbitrary: g) auto

lemma group_keys_routes:
  "group_keys hs ks g = Inr g' \<Longrightarrow> \<forall>k\<in>set ks. \<exists>h. Get_hash hs k = Inr h"
  by (induction ks arbitrary: g) (auto split: sum.splits)

lemma lock_in_range: "h < length (segment s) \<Longrightarrow> lock s h = Inr ()"
  by (simp add: lock_def)

lemma delete_groups_result:
  "\<forall>(h, ks)\<in>set g. h < length (segment s) \<Longrightarrow>
   \<exists>s'. delete_groups s g = Inr s'
     \<and> hash s' = hash s
     \<and> length (segment s') = length (segment s)
     \<and> (\<forall>k'. locked s' k' = locked s k')
     \<and> (\<forall>k'. Get s' k' =
          (if \<exists>(h, k)\<in>pairs g. locked s k' = Inr h \<and> key_eq k k' then Inr (0, False)
           else Get s k'))"
proof (induction g arbitrary: s)
  case Nil
  show ?case by simp
next
  case (Cons e g)
  obtain h ks where e: "e = (h, ks)" by (cases e)
  let ?s1 = "foldl (\<lambda>s' k. remove s' h k) s ks"
  have r: "h < length (segment s)" using Cons.prems by (simp add: e)
  note s1 = remove_keys [OF r, of ks]
  have "\<forall>(h, ks)\<in>set g. h < length (segment ?s1)"
    using Cons.prems s1 by auto
  from Cons.IH [OF this] obtain s' where s': "delete_groups ?s1 g = Inr s'"
    and hs: "hash s' = hash ?s1"
    and ln: "length (segment s') = length (segment ?s1)"
    and lk: "\<forall>k'. locked s' k' = locked ?s1 k'"
    and gt: "\<forall>k'. Get s' k' =
          (if \<exists>(h, k)\<in>pairs g. locked ?s1 k' = Inr h \<and> key_eq k k' then Inr (0, False)
           else Get ?s1 k')"
    by blast
  have "delete_groups s (e # g) = Inr s'"
    using s' by (simp add: e lock_in_range [OF r])
  moreover have "\<forall>k'. Get s' k' =
          (if \<exists>(h, k)\<in>pairs (e # g). locked s k' = Inr h \<and> key_eq k k' then Inr (0, False)
           else Get s k')"
    using gt s1 by (auto simp: e pairs_Cons)
  ultimately show ?case using hs ln lk s1 by simp
qed

lemma delete_groups_absent:
  "\<forall>(h, ks)\<in>set g. h < length (segment s) \<and> (\<forall>k\<in>set ks. map_lookup (segment s ! h) k = None)
   \<Longrightarrow> delete_groups s g = Inr s"
  by (induction g) (auto simp: lock_in_range remove_keys_absent)

lemma append_key_nonempty:
  "\<forall>(h', ks)\<in>set g. ks \<noteq> [] \<Longrightarrow> \<forall>(h', ks)\<in>set (append_key g h k). ks \<noteq> []"
  by (induction g h k rule: append_key.induct) auto

lemma group_keys_nonempty:
  "group_keys hs ks g = Inr g' \<Longrightarrow> \<forall>(h, ks)\<in>set g. ks \<noteq> [] \<Longrightarrow> \<forall>(h, ks)\<in>set g'. ks \<noteq> []"
proof (induction ks arbitrary: g)
  case Nil
  then show ?case by simp
next
  case (Cons k ks)
  then obtain h where "group_keys hs ks (append_key g h k) = Inr g'"
    by (auto split: sum.splits)
  moreover have "\<forall>(h', ks)\<in>set (append_key g h k). ks \<noteq> []"
    using Cons.prems(2) by (rule append_key_nonempty)
  ultimately show ?case by (rule Cons.IH)
qed

lemma group_in_pairs: "(h, ks) \<in> set g \<Longrightarrow> ks \<noteq> [] \<Longrightarrow> \<exists>k. (h, k) \<in> pairs g"
proof -
  assume g: "(h, ks) \<in> set g" and "ks \<noteq> []"
  then obtain k where "k \<in> set ks" by (cases ks) auto
  with g have "(h, k) \<in> pairs g" unfolding pairs_def by blast
  then show ?thesis ..
qed

lemma length_remove_keys:
  "length (segment (foldl (\<lambda>s' k. remove s' h k) s ks)) = length (segment s)"
  by (induction ks arbitrary: s) (simp_all add: remove_def)

lemma delete_groups_in_range:
  "delete_groups s g = Inr s' \<Longrightarrow> \<forall>(h, ks)\<in>set g. h < length (segment s)"
proof (induction g arbitrary: s)
  case Nil
  show ?case by simp
next
  case (Cons e g)
  obtain h ks where e: "e = (h, ks)" by (cases e)
  have r: "h < length (segment s)"
    using Cons.prems by (auto simp: e lock_def split: if_splits)
  then have "delete_groups (foldl (\<lambda>s' k. remove s' h k) s ks) g = Inr s'"
    using Cons.prems by (simp add: e lock_in_range)
  from Cons.IH [OF this] r show ?case
    by (auto simp: e length_remove_keys)
qed

lemma Delete_result:
  assumes "\<forall>k\<in>set ks. \<exists>h. locked s k = Inr h"
  shows "\<exists>s'. Delete s ks = Inr s'
     \<and> hash s' = hash s
     \<and> length (segment s') = length (segment s)
     \<and> (\<forall>k'. locked s' k' = locked s k')
     \<and> (\<forall>k'. Get s' k' =
          (if \<exists>k\<in>set ks. locked s k' = locked s k \<and> key_eq k k' then Inr (0, False)
           else Get s k'))"
proof -
  have "\<forall>k\<in>set ks. \<exists>h. Get_hash (hash s) k = Inr h"
    using assms by (auto simp: locked_iff)
  then obtain g where g: "group_keys (hash s) ks [] = Inr g"
    using group_keys_total by blast
  have p: "pairs g = {(h, k). k \<in> set ks \<and> Get_hash (hash s) k = Inr h}"
    using group_keys_pairs [OF g] by simp
  have pl: "\<And>h k. (h, k) \<in> pairs g \<longleftrightarrow> k \<in> set ks \<and> locked s k = Inr h"
    using assms by (auto simp: p locked_iff)
  have ne: "\<forall>(h, ks)\<in>set g. ks \<noteq> []"
    using group_keys_nonempty [OF g] by simp
  have "\<forall>(h, ks')\<in>set g. h < length (segment s)"
  proof (clarify)
    fix h ks'
    assume m: "(h, ks') \<in> set g"
    with ne have "ks' \<noteq> []" by auto
    with m obtain k where "(h, k) \<in> pairs g" using group_in_pairs by blast
    then have "locked s k = Inr h" by (simp add: pl)
    then show "h < length (segment s)" by (rule locked_in_range)
  qed
  from delete_groups_result [OF this] obtain s' where s': "delete_groups s g = Inr s'"
    and hs: "hash s' = hash s"
    and ln: "length (segment s') = length (segment s)"
    and lk: "\<forall>k'. locked s' k' = locked s k'"
    and gt: "\<forall>k'. Get s' k' =
          (if \<exists>(h, k)\<in>pairs g. locked s k' = Inr h \<and> key_eq k k' then Inr (0, False)
           else Get s k')"
    by blast
  have "Delete s ks = Inr s'" by (simp add: Delete_def g s')
  moreover have "\<And>k'. (\<exists>(h, k)\<in>pairs g. locked s k' = Inr h \<and> key_eq k k')
      \<longleftrightarrow> (\<exists>k\<in>set ks. locked s k' = locked s k \<and> key_eq k k')"
  proof
    fix k'
    assume "\<exists>(h, k)\<in>pairs g. locked s k' = Inr h \<and> key_eq k k'"
    then obtain h k where "(h, k) \<in> pairs g" "locked s k' = Inr h" "key_eq k k'"
      by blast
    then have "k \<in> set ks \<and> locked s k' = locked s k \<and> key_eq k k'"
      by (simp add: pl)
    then show "\<exists>k\<in>set ks. locked s k' = locked s k \<and> key_eq k k'" by blast
  next
    fix k'
    assume "\<exists>k\<in>set ks. locked s k' = locked s k \<and> key_eq k k'"
    then obtain k where k: "k \<in> set ks" "locked s k' = locked s k" "key_eq k k'"
      by blast
    with assms obtain h where "locked s k = Inr h" by blast
    with k have "(h, k) \<in> pairs g" "locked s k' = Inr h" by (simp_all add: pl)
    with k show "\<exists>(h, k)\<in>pairs g. locked s k' = Inr h \<and> key_eq k k'" by blast
  qed
  ultimately show ?thesis using hs ln lk gt by simp
qed

lemma Delete_returns:
  assumes "Delete s ks = Inr s'"
  shows "\<forall>k\<in>set ks. \<exists>h. locked s k = Inr h"
proof
  fix k
  assume k: "k \<in> set ks"
  from assms obtain g where g: "group_keys (hash s) ks [] = Inr g"
    and d: "delete_groups s g = Inr s'"
    by (auto simp: Delete_def split: sum.splits)
  from group_keys_routes [OF g] k obtain h where h: "Get_hash (hash s) k = Inr h" by blast
  with k have "(h, k) \<in> pairs g"
    using group_keys_pairs [OF g] by simp
  then obtain ks' where "(h, ks') \<in> set g" by (auto simp: pairs_def)
  with delete_groups_in_range [OF d] have "h < length (segment s)" by auto
  with h show "\<exists>h. locked s k = Inr h" by (auto simp: locked_iff)
qed

lemma Delete_absent:
  assumes "\<forall>k\<in>set ks. Get s k = Inr (0, False)"
  shows "Delete s ks = Inr s"
proof -
  have a: "\<forall>k\<in>set ks. \<exists>h. locked s k = Inr h \<and> map_lookup (segment s ! h) k = None"
    using assms by (auto simp: Get_absent_iff)
  then have "\<forall>k\<in>set ks. \<exists>h. Get_hash (hash s) k = Inr h"
    by (auto simp: locked_iff)
  then obtain g where g: "group_keys (hash s) ks [] = Inr g"
    using group_keys_total by blast
  have p: "pairs g = {(h, k). k \<in> set ks \<and> Get_hash (hash s) k = Inr h}"
    using group_keys_pairs [OF g] by simp
  have ne: "\<forall>(h, ks)\<in>set g. ks \<noteq> []"
    using group_keys_nonempty [OF g] by simp
  have m: "\<And>h ks' k. (h, ks') \<in> set g \<Longrightarrow> k \<in> set ks' \<Longrightarrow>
      h < length (segment s) \<and> map_lookup (segment s ! h) k = None"
  proof -
    fix h ks' k
    assume "(h, ks') \<in> set g" "k \<in> set ks'"
    then have "(h, k) \<in> pairs g" by (auto simp: pairs_def)
    then have "k \<in> set ks" "Get_hash (hash s) k = Inr h" by (auto simp: p)
    with a show "h < length (segment s) \<and> map_lookup (segment s ! h) k = None"
      by (auto simp: locked_iff)
  qed
  have "\<forall>(h, ks')\<in>set g.
      h < length (segment s) \<and> (\<forall>k\<in>set ks'. map_lookup (segment s ! h) k = None)"
  proof (clarify)
    fix h ks'
    assume i: "(h, ks') \<in> set g"
    with ne obtain k where "k \<in> set ks'" by (cases ks') auto
    with i m have "h < length (segment s)" by blast
    with i m show "h < length (segment s) \<and> (\<forall>k\<in>set ks'. map_lookup (segment s ! h) k = None)"
      by blast
  qed
  then have "delete_groups s g = Inr s" by (rule delete_groups_absent)
  then show ?thesis by (simp add: Delete_def g)
qed

text \<open>
  \<^verbatim>\<open>Delete\<close> in the same terms, for keys on each of which \<^verbatim>\<open>Get\<close> returns: afterwards
  \<^verbatim>\<open>Get\<close> reports every listed key missing and answers as before for every key equal
  to none of them.
\<close>

lemma Delete_Get:
  assumes "\<forall>k\<in>set keys. \<exists>r. Get s k = Inr r"
  shows "\<exists>s'. Delete s keys = Inr s'
     \<and> (\<forall>k\<in>set keys. Get s' k = Inr (0, False))
     \<and> (\<forall>k'. (\<forall>k\<in>set keys. \<not> key_eq k k') \<longrightarrow> Get s' k' = Get s k')
     \<and> ((\<forall>k\<in>set keys. Get s k = Inr (0, False)) \<longrightarrow> s' = s)"
proof -
  have l: "\<forall>k\<in>set keys. \<exists>h. locked s k = Inr h"
  proof
    fix k
    assume "k \<in> set keys"
    with assms have "\<exists>r. Get s k = Inr r" by blast
    then show "\<exists>h. locked s k = Inr h" by (simp only: Get_returns_iff)
  qed
  from Delete_result [OF l] obtain s' where s': "Delete s keys = Inr s'"
    and gt: "\<forall>k'. Get s' k' =
          (if \<exists>k\<in>set keys. locked s k' = locked s k \<and> key_eq k k' then Inr (0, False)
           else Get s k')"
    by blast
  have "\<forall>k\<in>set keys. Get s' k = Inr (0, False)"
  proof
    fix k
    assume k: "k \<in> set keys"
    with l obtain h where h: "locked s k = Inr h" by blast
    show "Get s' k = Inr (0, False)"
    proof (cases "key_eq k k")
      case True
      with k gt show ?thesis by auto
    next
      case False
      then have "Get s k = Inr (0, False)"
        by (simp add: Get_alt h lookup_not_refl)
      with gt show ?thesis by simp
    qed
  qed
  moreover have "\<forall>k'. (\<forall>k\<in>set keys. \<not> key_eq k k') \<longrightarrow> Get s' k' = Get s k'"
    using gt by auto
  moreover have "(\<forall>k\<in>set keys. Get s k = Inr (0, False)) \<longrightarrow> s' = s"
    using Delete_absent [of keys s] s' by auto
  ultimately show ?thesis using s' by blast
qed

subsection \<open>What an operation leaves alone\<close>

lemma perform_keeps:
  assumes "perform op (s, st) = Inr (s', st')"
    and "Get s k = Inr (v, True)"
    and "\<not> deletes_or_overwrites op k v st"
  shows "Get s' k = Inr (v, True)"
proof -
  from assms(2) obtain h where h: "locked s k = Inr h"
    and l: "map_lookup (segment s ! h) k = Some v"
    by (auto simp: Get_present_iff)
  show ?thesis
  proof (cases op)
    case (OpSet k' v')
    with assms obtain h' where "locked s k' = Inr h'" "s' = store s h' k' v'"
      by (auto simp: Set_def split: sum.splits)
    with assms OpSet show ?thesis
      by (simp add: Get_store locked_in_range)
  next
    case (OpGet k')
    with assms show ?thesis by (auto split: sum.splits)
  next
    case (OpDelete ks)
    with assms have d: "Delete s ks = Inr s'" by (auto split: sum.splits)
    from Delete_result [OF Delete_returns [OF d]] d
    have "Get s' k =
          (if \<exists>k0\<in>set ks. locked s k = locked s k0 \<and> key_eq k0 k then Inr (0, False)
           else Get s k)"
      by auto
    with assms OpDelete show ?thesis by (auto simp: list_ex_iff)
  next
    case (OpDeleteConditional k' p)
    with assms obtain r where d: "DeleteConditional s k' p st = Inr (r, s', st')"
      by (auto split: sum.splits)
    then obtain h' where h': "locked s k' = Inr h'"
      by (auto simp: DeleteConditional_def split: sum.splits)
    show ?thesis
    proof (cases "locked s k = Inr h' \<and> key_eq k' k")
      case True
      then have "map_lookup (segment s ! h') k' = Some v"
        using h l lookup_cong [of k' k "segment s ! h'"] by simp
      with d h' have "s' = (if fst (p v st) then remove s h' k' else s)"
        by (auto simp: DeleteConditional_def split_beta)
      with assms True OpDeleteConditional show ?thesis by simp
    next
      case False
      from d h' have "s' = s \<or> s' = remove s h' k'"
        by (auto simp: DeleteConditional_def split_beta split: option.splits if_splits)
      with False assms h' show ?thesis
        by (auto simp: Get_remove locked_in_range)
    qed
  next
    case (OpGetOrSet k' f)
    with assms obtain r where d: "GetOrSet s k' f st = Inr (r, s', st')"
      by (auto split: sum.splits)
    show ?thesis
    proof (cases "\<exists>x. Get s k' = Inr (x, True)")
      case True
      with d have "s' = s" by (auto simp: GetOrSet_def)
      with assms show ?thesis by simp
    next
      case False
      with d obtain h' where h': "locked s k' = Inr h'"
        and l': "map_lookup (segment s ! h') k' = None"
        by (auto simp: GetOrSet_def Get_alt split: sum.splits option.splits)
      with d have s': "s' = store s h' k' (fst (f st))"
        by (auto simp: GetOrSet_def Get_alt split_beta)
      have "\<not> (locked s k = Inr h' \<and> key_eq k' k)"
        using h l l' lookup_cong [of k' k "segment s ! h'"] by auto
      with assms h' s' show ?thesis
        by (auto simp: Get_store locked_in_range)
    qed
  next
    case (OpGetAndDelete k')
    with assms obtain r where d: "GetAndDelete s k' = Inr (r, s')"
      by (auto split: sum.splits)
    then obtain h' where h': "locked s k' = Inr h'"
      by (auto simp: GetAndDelete_def split: sum.splits)
    with d have "s' = s \<or> s' = remove s h' k'"
      by (auto simp: GetAndDelete_def split: option.splits)
    with assms h' OpGetAndDelete show ?thesis
      by (auto simp: Get_remove locked_in_range)
  next
    case (OpUpdate k' d f)
    with assms obtain r where u: "Update s k' d f st = Inr (r, s', st')"
      by (auto split: sum.splits)
    then obtain h' x where "locked s k' = Inr h'" "s' = store s h' k' x"
      by (auto simp: Update_def split_beta split: sum.splits option.splits)
    with assms OpUpdate show ?thesis
      by (auto simp: Get_store locked_in_range)
  next
    case (OpUpdateExisting k' f)
    with assms obtain r where u: "UpdateExisting s k' f st = Inr (r, s', st')"
      by (auto split: sum.splits)
    then obtain h' where h': "locked s k' = Inr h'"
      by (auto simp: UpdateExisting_def split: sum.splits)
    with u have "s' = s \<or> (\<exists>x. s' = store s h' k' x)"
      by (auto simp: UpdateExisting_def split_beta split: option.splits)
    with assms h' OpUpdateExisting show ?thesis
      by (auto simp: Get_store locked_in_range)
  qed
qed

lemma run_keeps:
  "run ops (s, st) = Inr (s', st') \<Longrightarrow> Get s k = Inr (v, True) \<Longrightarrow>
   undisturbed k v ops (s, st) \<Longrightarrow> Get s' k = Inr (v, True)"
proof (induction ops arbitrary: s st)
  case Nil
  then show ?case by simp
next
  case (Cons op ops)
  from Cons.prems(1) obtain s1 st1 where p: "perform op (s, st) = Inr (s1, st1)"
    and r: "run ops (s1, st1) = Inr (s', st')"
    by (auto split: sum.splits)
  from Cons.prems(3) p have n: "\<not> deletes_or_overwrites op k v st"
    and u: "undisturbed k v ops (s1, st1)"
    by simp_all
  have "Get s1 k = Inr (v, True)"
    using p Cons.prems(2) n by (rule perform_keeps)
  with r show ?case using u by (rule Cons.IH)
qed

subsection \<open>Set, then Get\<close>

text \<open>
  Claim C7, as stated: for all keys \<open>k\<close>, after \<^verbatim>\<open>Set(k, v)\<close> the call \<^verbatim>\<open>Get(k)\<close> returns
  \<open>(v, true)\<close>. It fails for a \<^verbatim>\<open>float64\<close> key that is a NaN (here the pattern of
  \<^verbatim>\<open>math.NaN()\<close>), on the map \<^verbatim>\<open>NewMap\<close> builds: \<^verbatim>\<open>Set\<close> adds an entry to the one segment,
  and \<^verbatim>\<open>Get\<close> does not find it, since a NaN is not equal to itself. (The two words
  derived from the key play no part: the mask of this map is 0.)
\<close>

theorem Set_Get_NaN_counterexample:
  "(NewMap :: error + int Map) = Inr \<lparr>segment = [[]], hash = NewHash 1, segmented = False\<rparr>
   \<and> Set \<lparr>segment = [[]], hash = NewHash 1, segmented = False\<rparr>
        (KFloat64 0x7FF8000000000001 \<lparr>Float32bits = 0x7FC00000, truncated = 0\<rparr>) (5::int)
     = Inr \<lparr>segment =
              [[(KFloat64 0x7FF8000000000001 \<lparr>Float32bits = 0x7FC00000, truncated = 0\<rparr>, 5)]],
            hash = NewHash 1, segmented = False\<rparr>
   \<and> Get \<lparr>segment =
              [[(KFloat64 0x7FF8000000000001 \<lparr>Float32bits = 0x7FC00000, truncated = 0\<rparr>, 5::int)]],
            hash = NewHash 1, segmented = False\<rparr>
        (KFloat64 0x7FF8000000000001 \<lparr>Float32bits = 0x7FC00000, truncated = 0\<rparr>)
     = Inr (0, False)"
  by (simp add: NewMap_def NewSegmentedMap_def map_defs router_defs f64_eq_def f64_nan_def)

text \<open>
  Claim C7, amended. For every key \<open>k\<close> that is equal to itself (every key but a
  floating-point NaN), every value \<open>v\<close> and every map on which \<^verbatim>\<open>Set(k, v)\<close> returns,
  \<^verbatim>\<open>Get(k)\<close> then returns \<open>(v, true)\<close>, and still does after any sequence of later
  operations that returns and in which no operation deletes or overwrites \<open>k\<close>.
\<close>

theorem Set_then_Get:
  assumes "Set s k v = Inr s1"
    and "key_eq k k"
    and "undisturbed k v ops (s1, st)"
    and "run ops (s1, st) = Inr (s2, st2)"
  shows "Get s1 k = Inr (v, True) \<and> Get s2 k = Inr (v, True)"
proof -
  from assms(1) obtain h where "locked s k = Inr h" "s1 = store s h k v"
    by (auto simp: Set_def split: sum.splits)
  with assms(2) have g: "Get s1 k = Inr (v, True)"
    by (simp add: Get_store locked_in_range)
  from assms(4) g assms(3) have "Get s2 k = Inr (v, True)"
    by (rule run_keeps)
  with g show ?thesis by simp
qed

theorem Set_then_Get_witness:
  "Set \<lparr>segment = [[], []], hash = NewHash 2, segmented = True\<rparr> (KInt 1) (5::int)
     = Inr \<lparr>segment = [[(KInt 1, 5)], []], hash = NewHash 2, segmented = True\<rparr>
   \<and> key_eq (KInt 1) (KInt 1)
   \<and> undisturbed (KInt 1) (5::int)
        [OpSet (KInt 2) 7, OpDeleteConditional (KInt 1) (\<lambda>v n. (False, Suc n)),
         OpGetOrSet (KInt 1) (\<lambda>n. (9, Suc n)), OpDelete [KInt 2]]
        (\<lparr>segment = [[(KInt 1, 5)], []], hash = NewHash 2, segmented = True\<rparr>, 0::nat)
   \<and> run [OpSet (KInt 2) 7, OpDeleteConditional (KInt 1) (\<lambda>v n. (False, Suc n)),
         OpGetOrSet (KInt 1) (\<lambda>n. (9, Suc n)), OpDelete [KInt 2]]
        (\<lparr>segment = [[(KInt 1, 5::int)], []], hash = NewHash 2, segmented = True\<rparr>, 0::nat)
     = Inr (\<lparr>segment = [[(KInt 1, 5)], []], hash = NewHash 2, segmented = True\<rparr>, 1)
   \<and> Get \<lparr>segment = [[(KInt 1, 5::int)], []], hash = NewHash 2, segmented = True\<rparr> (KInt 1)
     = Inr (5, True)"
proof -
  let ?m0 = "\<lparr>segment = [[], []], hash = NewHash 2, segmented = True\<rparr> :: int Map"
  let ?m1 = "\<lparr>segment = [[(KInt 1, 5::int)], []], hash = NewHash 2, segmented = True\<rparr>"
  let ?ops = "[OpSet (KInt 2) 7, OpDeleteConditional (KInt 1) (\<lambda>v n. (False, Suc n)),
         OpGetOrSet (KInt 1) (\<lambda>n. (9, Suc n)), OpDelete [KInt 2]] :: (int, nat) operation list"
  have a: "Set ?m0 (KInt 1) 5 = Inr ?m1"
    by (simp add: map_defs router_defs)
  have b: "key_eq (KInt 1) (KInt 1)"
    by (simp add: key_eq_def)
  have r: "run ?ops (?m1, 0) = Inr (?m1, 1)"
    by (simp add: map_defs router_defs DeleteConditional_def GetOrSet_def Delete_def)
  have u: "undisturbed (KInt 1) 5 ?ops (?m1, 0)"
    by (simp add: map_defs router_defs DeleteConditional_def GetOrSet_def Delete_def)
  from Set_then_Get [OF a b u r] a b u r show ?thesis by simp
qed

subsection \<open>The maps that can be built, and the keys they answer for\<close>

lemma routable_iff:
  "routable k \<longleftrightarrow>
     \<not> ((\<exists>x. k = KUint x) \<or> (\<exists>x. k = KUint8 x) \<or> (\<exists>x. k = KUint16 x) \<or> (\<exists>x. k = KUint32 x)
        \<or> k = KOther)"
  by (cases k) (simp_all add: routable_def)

lemma Get_hash_routable: "(\<exists>h. Get_hash hs k = Inr h) \<longleftrightarrow> routable k"
  by (auto simp: Get_hash_def routable_def split: sum.splits)

lemma NewSegmentedMap_inside:
  assumes "1 \<le> n" and "NewSegmentedMap n c = Inr s"
  shows "mask_inside s"
proof -
  from assms have "segment s = replicate (nat n) []" "hash s = NewHash n"
    by (auto simp: NewSegmentedMap_def Let_def split: if_splits)
  then have "unat (mask_f (hash s)) = unat (mask_of n)" "length (segment s) = nat n"
    by (simp_all add: NewHash_def)
  with mask_of_less [OF assms(1)] show ?thesis
    unfolding mask_inside_def by linarith
qed

lemma locked_returns: "mask_inside s \<Longrightarrow> (\<exists>h. locked s k = Inr h) \<longleftrightarrow> routable k"
proof
  assume "\<exists>h. locked s k = Inr h"
  then show "routable k" using Get_hash_routable by (auto simp: locked_iff)
next
  assume m: "mask_inside s" and "routable k"
  then obtain h where h: "Get_hash (hash s) k = Inr h"
    using Get_hash_routable by blast
  with Get_hash_le_mask [OF h] m have "h < length (segment s)"
    by (simp add: mask_inside_def)
  with h show "\<exists>h. locked s k = Inr h" by (auto simp: locked_iff)
qed

lemma Get_returns: "mask_inside s \<Longrightarrow> (\<exists>r. Get s k = Inr r) \<longleftrightarrow> routable k"
  using Get_returns_iff [of s k] locked_returns [of s k] by blast

lemma perform_preserves:
  assumes "perform op (s, st) = Inr (s', st')"
  shows "hash s' = hash s \<and> length (segment s') = length (segment s)"
proof (cases op)
  case (OpSet k v)
  with assms obtain h where "s' = store s h k v"
    by (auto simp: Set_def split: sum.splits)
  then show ?thesis by simp
next
  case (OpGet k)
  with assms have "s' = s" by (auto split: sum.splits)
  then show ?thesis by simp
next
  case (OpDelete ks)
  with assms have d: "Delete s ks = Inr s'" by (auto split: sum.splits)
  from Delete_result [OF Delete_returns [OF d]] d show ?thesis by auto
next
  case (OpDeleteConditional k p)
  with assms obtain r where d: "DeleteConditional s k p st = Inr (r, s', st')"
    by (auto split: sum.splits)
  then obtain h where h: "locked s k = Inr h"
    by (auto simp: DeleteConditional_def split: sum.splits)
  with d have "s' = s \<or> s' = remove s h k"
    by (auto simp: DeleteConditional_def split_beta split: option.splits if_splits)
  then show ?thesis by auto
next
  case (OpGetOrSet k f)
  with assms obtain r where d: "GetOrSet s k f st = Inr (r, s', st')"
    by (auto split: sum.splits)
  show ?thesis
  proof (cases "\<exists>x. Get s k = Inr (x, True)")
    case True
    with d have "s' = s" by (auto simp: GetOrSet_def)
    then show ?thesis by simp
  next
    case False
    with d obtain h where h: "locked s k = Inr h"
      and l: "map_lookup (segment s ! h) k = None"
      by (auto simp: GetOrSet_def Get_alt split: sum.splits option.splits)
    with d have "s' = store s h k (fst (f st))"
      by (auto simp: GetOrSet_def Get_alt split_beta)
    then show ?thesis by simp
  qed
next
  case (OpGetAndDelete k)
  with assms obtain r where d: "GetAndDelete s k = Inr (r, s')"
    by (auto split: sum.splits)
  then obtain h where h: "locked s k = Inr h"
    by (auto simp: GetAndDelete_def split: sum.splits)
  with d have "s' = s \<or> s' = remove s h k"
    by (auto simp: GetAndDelete_def split: option.splits)
  then show ?thesis by auto
next
  case (OpUpdate k d f)
  with assms obtain r where u: "Update s k d f st = Inr (r, s', st')"
    by (auto split: sum.splits)
  then obtain h x where "s' = store s h k x"
    by (auto simp: Update_def split_beta split: sum.splits option.splits)
  then show ?thesis by simp
next
  case (OpUpdateExisting k f)
  with assms obtain r where u: "UpdateExisting s k f st = Inr (r, s', st')"
    by (auto split: sum.splits)
  then obtain h where h: "locked s k = Inr h"
    by (auto simp: UpdateExisting_def split: sum.splits)
  with u have "s' = s \<or> (\<exists>x. s' = store s h k x)"
    by (auto simp: UpdateExisting_def split_beta split: option.splits)
  then show ?thesis by auto
qed

lemma run_preserves:
  "run ops (s, st) = Inr (s', st') \<Longrightarrow>
   hash s' = hash s \<and> length (segment s') = length (segment s)"
proof (induction ops arbitrary: s st)
  case Nil
  then show ?case by simp
next
  case (Cons op ops)
  then obtain s1 st1 where p: "perform op (s, st) = Inr (s1, st1)"
    and r: "run ops (s1, st1) = Inr (s', st')"
    by (auto split: sum.splits)
  from perform_preserves [OF p] Cons.IH [OF r] show ?case by simp
qed

text \<open>
  In every map that \<^verbatim>\<open>NewSegmentedMap\<close> builds with a count of at least 1, and after
  any operations on it, \<^verbatim>\<open>Get\<close> returns for exactly the keys the router accepts: a key
  is then present or absent unless it is of kind \<^verbatim>\<open>uint\<close>, \<^verbatim>\<open>uint8\<close>, \<^verbatim>\<open>uint16\<close> or
  \<^verbatim>\<open>uint32\<close>.
\<close>

lemma reachable_Get_returns:
  assumes "1 \<le> n" and "NewSegmentedMap n c = Inr s0" and "run ops (s0, st) = Inr (s, st')"
  shows "(\<exists>r. Get s k = Inr r) \<longleftrightarrow> routable k"
proof -
  have "mask_inside s0" using assms(1,2) by (rule NewSegmentedMap_inside)
  with run_preserves [OF assms(3)] have "mask_inside s"
    by (simp add: mask_inside_def)
  then show ?thesis by (rule Get_returns)
qed

lemma Set_returns: "mask_inside s \<Longrightarrow> (\<exists>s'. Set s k v = Inr s') \<longleftrightarrow> routable k"
proof -
  assume m: "mask_inside s"
  have "(\<exists>s'. Set s k v = Inr s') \<longleftrightarrow> (\<exists>h. locked s k = Inr h)"
    by (cases "locked s k") (simp_all add: Set_def)
  with locked_returns [OF m, of k] show ?thesis by simp
qed

subsection \<open>One entry for a key\<close>

lemma assign_subset: "set (map_assign m k v) \<subseteq> insert (k, v) (set m)"
  by (induction m k v rule: map_assign.induct) auto

lemma distinct_unique:
  "distinct_keys m \<Longrightarrow> (k, v) \<in> set m \<Longrightarrow> (k', v') \<in> set m \<Longrightarrow> key_eq k k' \<Longrightarrow>
   (k, v) = (k', v')"
proof (induction m)
  case Nil
  then show ?case by simp
next
  case (Cons e m)
  obtain a b where e: "e = (a, b)" by (cases e)
  from Cons.prems(1) have n: "\<forall>(k', v')\<in>set m. \<not> key_eq a k'" and d: "distinct_keys m"
    by (simp_all add: e list_all_iff)
  show ?case
  proof (cases "(k, v) = e")
    case True
    show ?thesis
    proof (cases "(k', v') = e")
      case True
      with \<open>(k, v) = e\<close> show ?thesis by simp
    next
      case False
      with Cons.prems(3) have "(k', v') \<in> set m" by simp
      with n have "\<not> key_eq a k'" by auto
      with True e Cons.prems(4) show ?thesis by simp
    qed
  next
    case False
    with Cons.prems(2) have m: "(k, v) \<in> set m" by simp
    show ?thesis
    proof (cases "(k', v') = e")
      case True
      from m n have "\<not> key_eq a k" by auto
      moreover have "key_eq k' k" using Cons.prems(4) by (rule key_eq_sym)
      ultimately show ?thesis using True e by simp
    next
      case False
      with Cons.prems(3) have "(k', v') \<in> set m" by simp
      with Cons.IH [OF d m] Cons.prems(4) show ?thesis by simp
    qed
  qed
qed

lemma lookup_Some_entry:
  "map_lookup m k = Some v \<Longrightarrow> \<exists>k'. (k', v) \<in> set m \<and> key_eq k' k"
  by (induction m k rule: map_lookup.induct) (auto split: if_splits)

lemma lookup_None_iff:
  "map_lookup m k = None \<longleftrightarrow> (\<forall>(k', v')\<in>set m. \<not> key_eq k' k)"
  by (induction m k rule: map_lookup.induct) auto

lemma lookup_entry:
  assumes "distinct_keys m" and "(k, v) \<in> set m" and "key_eq k k"
  shows "map_lookup m k = Some v"
proof -
  from assms(2,3) have "map_lookup m k \<noteq> None"
    by (auto simp: lookup_None_iff)
  then obtain w where w: "map_lookup m k = Some w" by auto
  from lookup_Some_entry [OF w] obtain k' where k': "(k', w) \<in> set m" "key_eq k' k"
    by blast
  from distinct_unique [OF assms(1) k'(1) assms(2) k'(2)] w show ?thesis by simp
qed

lemma distinct_filter: "distinct_keys m \<Longrightarrow> distinct_keys (filter P m)"
  by (induction m rule: distinct_keys.induct) (auto simp: list_all_iff)

lemma distinct_delete: "distinct_keys m \<Longrightarrow> distinct_keys (map_delete m k)"
  by (simp add: map_delete_def distinct_filter)

lemma set_delete: "set (map_delete m k) = {e \<in> set m. \<not> key_eq (fst e) k}"
  by (auto simp: map_delete_def)

lemma distinct_assign: "distinct_keys m \<Longrightarrow> distinct_keys (map_assign m k v)"
proof (induction m)
  case Nil
  show ?case by simp
next
  case (Cons e m)
  obtain a b where e: "e = (a, b)" by (cases e)
  from Cons.prems have n: "\<forall>(k', v')\<in>set m. \<not> key_eq a k'" and d: "distinct_keys m"
    by (simp_all add: e list_all_iff)
  show ?case
  proof (cases "key_eq a k")
    case True
    have "\<forall>(k', v')\<in>set m. \<not> key_eq k k'"
    proof (clarify)
      fix k' v'
      assume "(k', v') \<in> set m" and "key_eq k k'"
      with True have "key_eq a k'" using key_eq_trans by blast
      with n \<open>(k', v') \<in> set m\<close> show False by auto
    qed
    with True d show ?thesis by (simp add: e list_all_iff)
  next
    case False
    have "\<forall>(k', v')\<in>set (map_assign m k v). \<not> key_eq a k'"
      using assign_subset [of m k v] n False by auto
    with False Cons.IH [OF d] show ?thesis by (simp add: e list_all_iff)
  qed
qed

lemma mem_assign:
  "distinct_keys m \<Longrightarrow>
   x \<in> set (map_assign m k v) \<longleftrightarrow> x = (k, v) \<or> x \<in> set m \<and> \<not> key_eq (fst x) k"
proof (induction m)
  case Nil
  show ?case by simp
next
  case (Cons e m)
  obtain a b where e: "e = (a, b)" by (cases e)
  from Cons.prems have n: "\<forall>(k', v')\<in>set m. \<not> key_eq a k'" and d: "distinct_keys m"
    by (simp_all add: e list_all_iff)
  show ?case
  proof (cases "key_eq a k")
    case True
    have f: "\<And>y. y \<in> set m \<Longrightarrow> \<not> key_eq (fst y) k"
    proof
      fix y
      assume i: "y \<in> set m" and "key_eq (fst y) k"
      then have "key_eq k (fst y)" by (simp add: key_eq_sym)
      with True have "key_eq a (fst y)" by (rule key_eq_trans)
      moreover from n i have "\<not> key_eq a (fst y)" by (cases y) auto
      ultimately show False by simp
    qed
    have "map_assign (e # m) k v = (k, v) # m" using True by (simp add: e)
    then have "x \<in> set (map_assign (e # m) k v) \<longleftrightarrow> x = (k, v) \<or> x \<in> set m" by simp
    also have "\<dots> \<longleftrightarrow> x = (k, v) \<or> x \<in> set (e # m) \<and> \<not> key_eq (fst x) k"
      using True f [of x] by (auto simp: e)
    finally show ?thesis .
  next
    case False
    have "map_assign (e # m) k v = e # map_assign m k v" using False by (simp add: e)
    then have "x \<in> set (map_assign (e # m) k v) \<longleftrightarrow> x = e \<or> x \<in> set (map_assign m k v)"
      by simp
    also have "\<dots> \<longleftrightarrow> x = e \<or> x = (k, v) \<or> x \<in> set m \<and> \<not> key_eq (fst x) k"
      by (simp only: Cons.IH [OF d])
    also have "\<dots> \<longleftrightarrow> x = (k, v) \<or> x \<in> set (e # m) \<and> \<not> key_eq (fst x) k"
      using False by (auto simp: e)
    finally show ?thesis .
  qed
qed

subsection \<open>The shape of every map that can be built\<close>

lemma well_formedI:
  assumes "mask_inside s"
    and "\<And>i. i < length (segment s) \<Longrightarrow> distinct_keys (segment s ! i)"
    and "\<And>i k v. i < length (segment s) \<Longrightarrow> (k, v) \<in> set (segment s ! i) \<Longrightarrow>
           Get_hash (hash s) k = Inr i"
  shows "well_formed s"
  unfolding well_formed_def using assms by blast

lemma well_formed_inside: "well_formed s \<Longrightarrow> mask_inside s"
  by (simp add: well_formed_def)

lemma well_formed_distinct:
  "well_formed s \<Longrightarrow> i < length (segment s) \<Longrightarrow> distinct_keys (segment s ! i)"
  by (simp add: well_formed_def)

lemma well_formed_route:
  "well_formed s \<Longrightarrow> i < length (segment s) \<Longrightarrow> (k, v) \<in> set (segment s ! i) \<Longrightarrow>
   Get_hash (hash s) k = Inr i"
  unfolding well_formed_def by blast

lemma well_formed_new:
  assumes "1 \<le> n" and "NewSegmentedMap n c = Inr s"
  shows "well_formed s"
proof (rule well_formedI)
  show "mask_inside s" using assms by (rule NewSegmentedMap_inside)
next
  from assms have g: "segment s = replicate (nat n) []"
    by (auto simp: NewSegmentedMap_def Let_def split: if_splits)
  fix i
  assume "i < length (segment s)"
  with g have e: "segment s ! i = []" by simp
  then show "distinct_keys (segment s ! i)" by simp
  fix k v
  assume "(k, v) \<in> set (segment s ! i)"
  with e show "Get_hash (hash s) k = Inr i" by simp
qed

lemma well_formed_store:
  assumes "well_formed s" and "locked s k = Inr h"
  shows "well_formed (store s h k v)"
proof (rule well_formedI)
  show "mask_inside (store s h k v)"
    using well_formed_inside [OF assms(1)] by (simp add: mask_inside_def)
next
  from assms(2) have r: "Get_hash (hash s) k = Inr h" and l: "h < length (segment s)"
    by (simp_all add: locked_iff)
  fix i
  assume "i < length (segment (store s h k v))"
  then have i: "i < length (segment s)" by simp
  have n: "segment (store s h k v) ! i
      = (if i = h then map_assign (segment s ! h) k v else segment s ! i)"
    using i by (simp add: segment_store nth_list_update)
  show "distinct_keys (segment (store s h k v) ! i)"
    using well_formed_distinct [OF assms(1) i] by (auto simp: n distinct_assign)
  fix k' v'
  assume m: "(k', v') \<in> set (segment (store s h k v) ! i)"
  show "Get_hash (hash (store s h k v)) k' = Inr i"
  proof (cases "i = h")
    case True
    with m n have "(k', v') \<in> set (map_assign (segment s ! h) k v)" by simp
    then have "(k', v') = (k, v) \<or> (k', v') \<in> set (segment s ! h)"
      using assign_subset [of "segment s ! h" k v] by auto
    then show ?thesis
    proof
      assume "(k', v') = (k, v)"
      with r True show ?thesis by simp
    next
      assume "(k', v') \<in> set (segment s ! h)"
      with well_formed_route [OF assms(1) l] True show ?thesis by simp
    qed
  next
    case False
    with m n have "(k', v') \<in> set (segment s ! i)" by simp
    with well_formed_route [OF assms(1) i] show ?thesis by simp
  qed
qed

lemma well_formed_remove:
  assumes "well_formed s"
  shows "well_formed (remove s h k)"
proof (rule well_formedI)
  show "mask_inside (remove s h k)"
    using well_formed_inside [OF assms(1)] by (simp add: mask_inside_def)
next
  fix i
  assume "i < length (segment (remove s h k))"
  then have i: "i < length (segment s)" by simp
  have n: "segment (remove s h k) ! i
      = (if i = h then map_delete (segment s ! h) k else segment s ! i)"
    using i by (simp add: segment_remove nth_list_update)
  show "distinct_keys (segment (remove s h k) ! i)"
    using well_formed_distinct [OF assms(1) i] by (auto simp: n distinct_delete)
  fix k' v'
  assume "(k', v') \<in> set (segment (remove s h k) ! i)"
  with n have "(k', v') \<in> set (segment s ! i)"
    by (simp add: set_delete split: if_splits)
  with well_formed_route [OF assms(1) i] show "Get_hash (hash (remove s h k)) k' = Inr i"
    by simp
qed

lemma well_formed_remove_keys:
  "well_formed s \<Longrightarrow> well_formed (foldl (\<lambda>s' k. remove s' h k) s ks)"
  by (induction ks arbitrary: s) (simp_all add: well_formed_remove)

lemma well_formed_delete_groups:
  "well_formed s \<Longrightarrow> delete_groups s g = Inr s' \<Longrightarrow> well_formed s'"
proof (induction g arbitrary: s)
  case Nil
  then show ?case by simp
next
  case (Cons e g)
  obtain h ks where e: "e = (h, ks)" by (cases e)
  from Cons.prems(2) have "delete_groups (foldl (\<lambda>s' k. remove s' h k) s ks) g = Inr s'"
    by (simp add: e split: sum.splits)
  with well_formed_remove_keys [OF Cons.prems(1)] show ?case by (rule Cons.IH)
qed

lemma well_formed_perform:
  assumes "well_formed s" and "perform op (s, st) = Inr (s', st')"
  shows "well_formed s'"
proof (cases op)
  case (OpSet k v)
  with assms(2) obtain h where "locked s k = Inr h" "s' = store s h k v"
    by (auto simp: Set_def split: sum.splits)
  with assms(1) show ?thesis by (simp add: well_formed_store)
next
  case (OpGet k)
  with assms have "s' = s" by (auto split: sum.splits)
  with assms(1) show ?thesis by simp
next
  case (OpDelete ks)
  with assms(2) obtain g where "delete_groups s g = Inr s'"
    by (auto simp: Delete_def split: sum.splits)
  with assms(1) show ?thesis by (rule well_formed_delete_groups)
next
  case (OpDeleteConditional k p)
  with assms(2) obtain r where d: "DeleteConditional s k p st = Inr (r, s', st')"
    by (auto split: sum.splits)
  then obtain h where h: "locked s k = Inr h"
    by (auto simp: DeleteConditional_def split: sum.splits)
  with d have "s' = s \<or> s' = remove s h k"
    by (auto simp: DeleteConditional_def split_beta split: option.splits if_splits)
  with assms(1) show ?thesis by (auto simp: well_formed_remove)
next
  case (OpGetOrSet k f)
  with assms(2) obtain r where d: "GetOrSet s k f st = Inr (r, s', st')"
    by (auto split: sum.splits)
  show ?thesis
  proof (cases "\<exists>x. Get s k = Inr (x, True)")
    case True
    with d have "s' = s" by (auto simp: GetOrSet_def)
    with assms(1) show ?thesis by simp
  next
    case False
    with d obtain h where h: "locked s k = Inr h"
      and l: "map_lookup (segment s ! h) k = None"
      by (auto simp: GetOrSet_def Get_alt split: sum.splits option.splits)
    with d have "s' = store s h k (fst (f st))"
      by (auto simp: GetOrSet_def Get_alt split_beta)
    with assms(1) h show ?thesis by (simp add: well_formed_store)
  qed
next
  case (OpGetAndDelete k)
  with assms(2) obtain r where d: "GetAndDelete s k = Inr (r, s')"
    by (auto split: sum.splits)
  then obtain h where h: "locked s k = Inr h"
    by (auto simp: GetAndDelete_def split: sum.splits)
  with d have "s' = s \<or> s' = remove s h k"
    by (auto simp: GetAndDelete_def split: option.splits)
  with assms(1) show ?thesis by (auto simp: well_formed_remove)
next
  case (OpUpdate k d f)
  with assms(2) obtain r where u: "Update s k d f st = Inr (r, s', st')"
    by (auto split: sum.splits)
  then obtain h x where "locked s k = Inr h" "s' = store s h k x"
    by (auto simp: Update_def split_beta split: sum.splits option.splits)
  with assms(1) show ?thesis by (simp add: well_formed_store)
next
  case (OpUpdateExisting k f)
  with assms(2) obtain r where u: "UpdateExisting s k f st = Inr (r, s', st')"
    by (auto split: sum.splits)
  then obtain h where h: "locked s k = Inr h"
    by (auto simp: UpdateExisting_def split: sum.splits)
  with u have "s' = s \<or> (\<exists>x. s' = store s h k x)"
    by (auto simp: UpdateExisting_def split_beta split: option.splits)
  with assms(1) h show ?thesis by (auto simp: well_formed_store)
qed

lemma well_formed_run:
  "well_formed s \<Longrightarrow> run ops (s, st) = Inr (s', st') \<Longrightarrow> well_formed s'"
proof (induction ops arbitrary: s st)
  case Nil
  then show ?case by simp
next
  case (Cons op ops)
  from Cons.prems(2) obtain s1 st1 where p: "perform op (s, st) = Inr (s1, st1)"
    and r: "run ops (s1, st1) = Inr (s', st')"
    by (auto split: sum.splits)
  from well_formed_perform [OF Cons.prems(1) p] r show ?case by (rule Cons.IH)
qed

lemma well_formed_built:
  assumes "1 \<le> n" and "NewSegmentedMap n c = Inr s0" and "run ops (s0, st0) = Inr (s, st1)"
  shows "well_formed s"
  using well_formed_new [OF assms(1,2)] assms(3) by (rule well_formed_run)

subsection \<open>The entries of a map\<close>

lemma holds_iff: "holds s k v \<longleftrightarrow> (\<exists>i<length (segment s). (k, v) \<in> set (segment s ! i))"
  unfolding holds_def list_ex_iff by (metis in_set_conv_nth)

lemma lacks_iff:
  "lacks s k \<longleftrightarrow> (\<forall>i<length (segment s). \<forall>(k', v')\<in>set (segment s ! i). \<not> key_eq k' k)"
  by (simp add: lacks_def list_all_iff all_set_conv_all_nth)

lemma lacks_holds: "lacks s k \<Longrightarrow> holds s k' v' \<Longrightarrow> \<not> key_eq k' k"
  by (auto simp: lacks_iff holds_iff)

lemma holds_lookup:
  assumes "well_formed s" and "locked s k = Inr h" and "key_eq k k" and "holds s k v"
  shows "map_lookup (segment s ! h) k = Some v"
proof -
  from assms(4) obtain i where i: "i < length (segment s)" "(k, v) \<in> set (segment s ! i)"
    by (auto simp: holds_iff)
  from well_formed_route [OF assms(1) i] assms(2) have "i = h"
    by (simp add: locked_iff)
  with i well_formed_distinct [OF assms(1) i(1)] assms(3) show ?thesis
    by (simp add: lookup_entry)
qed

lemma lacks_lookup:
  assumes "locked s k = Inr h" and "lacks s k"
  shows "map_lookup (segment s ! h) k = None"
proof -
  from assms(1) have "h < length (segment s)" by (rule locked_in_range)
  with assms(2) show ?thesis by (simp add: lacks_iff lookup_None_iff)
qed

lemma holds_Get:
  assumes "well_formed s" and "routable k" and "key_eq k k"
  shows "(holds s k v \<longrightarrow> Get s k = Inr (v, True)) \<and> (lacks s k \<longrightarrow> Get s k = Inr (0, False))"
proof -
  from locked_returns [OF well_formed_inside [OF assms(1)], of k] assms(2)
  obtain h where h: "locked s k = Inr h" by blast
  show ?thesis
    using holds_lookup [OF assms(1) h assms(3)] lacks_lookup [OF h] h
    by (auto simp: Get_present_iff Get_absent_iff)
qed

lemma same_key_entry:
  assumes "well_formed s" and "locked s k = Inr h" and "holds s k cur"
    and "holds s k' v'" and "key_eq k' k" and "Get_hash (hash s) k' = Inr h"
  shows "k' = k \<and> v' = cur"
proof -
  from assms(2) have h: "h < length (segment s)" and r: "Get_hash (hash s) k = Inr h"
    by (simp_all add: locked_iff)
  from assms(3) obtain i where i: "i < length (segment s)" "(k, cur) \<in> set (segment s ! i)"
    by (auto simp: holds_iff)
  from well_formed_route [OF assms(1) i] r have a: "(k, cur) \<in> set (segment s ! h)"
    using i by simp
  from assms(4) obtain j where j: "j < length (segment s)" "(k', v') \<in> set (segment s ! j)"
    by (auto simp: holds_iff)
  from well_formed_route [OF assms(1) j] assms(6) have b: "(k', v') \<in> set (segment s ! h)"
    using j by simp
  from distinct_unique [OF well_formed_distinct [OF assms(1) h] b a assms(5)]
  show ?thesis by simp
qed

lemma holds_store_iff:
  assumes "well_formed s" and "locked s k = Inr h"
  shows "holds (store s h k v) k' v' \<longleftrightarrow>
     (k', v') = (k, v) \<or> holds s k' v' \<and> \<not> (key_eq k' k \<and> Get_hash (hash s) k' = Inr h)"
proof -
  from assms(2) have h: "h < length (segment s)" by (rule locked_in_range)
  have n: "\<And>i. i < length (segment s) \<Longrightarrow> segment (store s h k v) ! i
      = (if i = h then map_assign (segment s ! h) k v else segment s ! i)"
    by (simp add: segment_store nth_list_update)
  have m: "\<And>x. x \<in> set (map_assign (segment s ! h) k v) \<longleftrightarrow>
      x = (k, v) \<or> x \<in> set (segment s ! h) \<and> \<not> key_eq (fst x) k"
    using well_formed_distinct [OF assms(1) h] by (rule mem_assign)
  show ?thesis
  proof
    assume "holds (store s h k v) k' v'"
    then obtain i where i: "i < length (segment s)"
      and e: "(k', v') \<in> set (segment (store s h k v) ! i)"
      by (auto simp: holds_iff)
    show "(k', v') = (k, v) \<or> holds s k' v' \<and> \<not> (key_eq k' k \<and> Get_hash (hash s) k' = Inr h)"
    proof (cases "i = h")
      case True
      with e n [OF i] have "(k', v') \<in> set (map_assign (segment s ! h) k v)" by simp
      then have "(k', v') = (k, v) \<or> (k', v') \<in> set (segment s ! h) \<and> \<not> key_eq k' k"
        by (simp add: m)
      moreover have "(k', v') \<in> set (segment s ! h) \<Longrightarrow> holds s k' v'"
        using h unfolding holds_iff by blast
      ultimately show ?thesis by blast
    next
      case False
      with e n [OF i] have a: "(k', v') \<in> set (segment s ! i)" by simp
      from well_formed_route [OF assms(1) i a] False have "Get_hash (hash s) k' \<noteq> Inr h"
        by simp
      with a i show ?thesis by (auto simp: holds_iff)
    qed
  next
    assume a: "(k', v') = (k, v) \<or> holds s k' v' \<and> \<not> (key_eq k' k \<and> Get_hash (hash s) k' = Inr h)"
    show "holds (store s h k v) k' v'"
    proof (cases "(k', v') = (k, v)")
      case True
      then have "(k', v') \<in> set (segment (store s h k v) ! h)"
        by (simp add: n [OF h] m)
      with h show ?thesis unfolding holds_iff by auto
    next
      case False
      with a have b: "holds s k' v'" and c: "\<not> (key_eq k' k \<and> Get_hash (hash s) k' = Inr h)"
        by blast+
      from b obtain i where i: "i < length (segment s)" "(k', v') \<in> set (segment s ! i)"
        by (auto simp: holds_iff)
      have "(k', v') \<in> set (segment (store s h k v) ! i)"
      proof (cases "i = h")
        case True
        with well_formed_route [OF assms(1) i] c have "\<not> key_eq k' k" by simp
        with i True show ?thesis by (simp add: n [OF h] m)
      next
        case False
        with i show ?thesis by (simp add: n)
      qed
      with i(1) show ?thesis unfolding holds_iff by auto
    qed
  qed
qed

lemma holds_remove_iff:
  assumes "well_formed s"
  shows "holds (remove s h k) k' v' \<longleftrightarrow>
     holds s k' v' \<and> \<not> (key_eq k' k \<and> Get_hash (hash s) k' = Inr h)"
proof -
  have n: "\<And>i. i < length (segment s) \<Longrightarrow> segment (remove s h k) ! i
      = (if i = h then map_delete (segment s ! h) k else segment s ! i)"
    by (simp add: segment_remove nth_list_update)
  show ?thesis
  proof
    assume "holds (remove s h k) k' v'"
    then obtain i where i: "i < length (segment s)"
      and e: "(k', v') \<in> set (segment (remove s h k) ! i)"
      by (auto simp: holds_iff)
    show "holds s k' v' \<and> \<not> (key_eq k' k \<and> Get_hash (hash s) k' = Inr h)"
    proof (cases "i = h")
      case True
      with e n [OF i] have "(k', v') \<in> set (segment s ! h) \<and> \<not> key_eq k' k"
        by (simp add: set_delete)
      with i True show ?thesis by (auto simp: holds_iff)
    next
      case False
      with e n [OF i] have a: "(k', v') \<in> set (segment s ! i)" by simp
      from well_formed_route [OF assms(1) i a] False have "Get_hash (hash s) k' \<noteq> Inr h"
        by simp
      with a i show ?thesis by (auto simp: holds_iff)
    qed
  next
    assume a: "holds s k' v' \<and> \<not> (key_eq k' k \<and> Get_hash (hash s) k' = Inr h)"
    then obtain i where i: "i < length (segment s)" "(k', v') \<in> set (segment s ! i)"
      by (auto simp: holds_iff)
    have "(k', v') \<in> set (segment (remove s h k) ! i)"
    proof (cases "i = h")
      case True
      with well_formed_route [OF assms(1) i] a have "\<not> key_eq k' k" by simp
      with i True show ?thesis by (simp add: n set_delete)
    next
      case False
      with i show ?thesis by (simp add: n)
    qed
    with i(1) show "holds (remove s h k) k' v'" unfolding holds_iff by auto
  qed
qed

lemma store_entries:
  assumes "well_formed s" and "locked s k = Inr h" and "key_eq k k"
    and "(\<exists>cur. holds s k cur) \<or> lacks s k"
  shows "holds (store s h k v) k' v' \<longleftrightarrow> (if k' = k then v' = v else holds s k' v')"
proof (cases "k' = k")
  case True
  from assms(2) have "Get_hash (hash s) k = Inr h" by (simp add: locked_iff)
  with True assms(3) show ?thesis
    by (simp add: holds_store_iff [OF assms(1,2)])
next
  case False
  have "holds s k' v' \<Longrightarrow> \<not> (key_eq k' k \<and> Get_hash (hash s) k' = Inr h)"
  proof
    assume a: "holds s k' v'" and b: "key_eq k' k \<and> Get_hash (hash s) k' = Inr h"
    from assms(4) show False
    proof
      assume "\<exists>cur. holds s k cur"
      then obtain cur where "holds s k cur" ..
      from same_key_entry [OF assms(1,2) this a] b False show False by simp
    next
      assume "lacks s k"
      from lacks_holds [OF this a] b show False by simp
    qed
  qed
  with False show ?thesis
    by (auto simp: holds_store_iff [OF assms(1,2)])
qed

lemma remove_entries:
  assumes "well_formed s" and "locked s k = Inr h" and "key_eq k k" and "holds s k cur"
  shows "holds (remove s h k) k' v' \<longleftrightarrow> holds s k' v' \<and> k' \<noteq> k"
proof (cases "k' = k")
  case True
  from assms(2) have "Get_hash (hash s) k = Inr h" by (simp add: locked_iff)
  with True assms(3) show ?thesis
    by (simp add: holds_remove_iff [OF assms(1)])
next
  case False
  have "holds s k' v' \<Longrightarrow> \<not> (key_eq k' k \<and> Get_hash (hash s) k' = Inr h)"
  proof
    assume a: "holds s k' v'" and b: "key_eq k' k \<and> Get_hash (hash s) k' = Inr h"
    from same_key_entry [OF assms(1,2,4) a] b False show False by simp
  qed
  with False show ?thesis
    by (auto simp: holds_remove_iff [OF assms(1)])
qed

subsection \<open>DeleteConditional, Update and GetOrSet on the maps that can be built\<close>

lemma built_locked:
  assumes "well_formed s" and "routable k"
  shows "\<exists>h. locked s k = Inr h"
  using locked_returns [OF well_formed_inside [OF assms(1)], of k] assms(2) by simp

text \<open>
  Claim C1, as stated: for every key present in the map with the value \<open>v\<close>,
  \<^verbatim>\<open>DeleteConditional(k, p)\<close> evaluates \<open>p v\<close>, removes the entry if it is true and returns
  \<open>(v, false)\<close>. It fails for a \<^verbatim>\<open>float64\<close> key that is a NaN: after \<^verbatim>\<open>Set(NaN, 5)\<close> on the
  map \<^verbatim>\<open>NewMap\<close> builds, the segment holds the entry, and \<^verbatim>\<open>DeleteConditional\<close> with a
  predicate that is always true returns \<open>(0, false)\<close>, does not run the predicate (the
  caller's count of its runs stays 0) and removes nothing, since the lookup of a NaN
  in a Go map finds no entry.
\<close>

theorem DeleteConditional_NaN_counterexample:
  "(NewMap :: error + int Map) = Inr \<lparr>segment = [[]], hash = NewHash 1, segmented = False\<rparr>
   \<and> Set \<lparr>segment = [[]], hash = NewHash 1, segmented = False\<rparr>
        (KFloat64 0x7FF8000000000001 \<lparr>Float32bits = 0x7FC00000, truncated = 0\<rparr>) (5::int)
     = Inr \<lparr>segment =
              [[(KFloat64 0x7FF8000000000001 \<lparr>Float32bits = 0x7FC00000, truncated = 0\<rparr>, 5)]],
            hash = NewHash 1, segmented = False\<rparr>
   \<and> holds \<lparr>segment =
              [[(KFloat64 0x7FF8000000000001 \<lparr>Float32bits = 0x7FC00000, truncated = 0\<rparr>, 5::int)]],
            hash = NewHash 1, segmented = False\<rparr>
        (KFloat64 0x7FF8000000000001 \<lparr>Float32bits = 0x7FC00000, truncated = 0\<rparr>) 5
   \<and> DeleteConditional
        \<lparr>segment =
              [[(KFloat64 0x7FF8000000000001 \<lparr>Float32bits = 0x7FC00000, truncated = 0\<rparr>, 5::int)]],
            hash = NewHash 1, segmented = False\<rparr>
        (KFloat64 0x7FF8000000000001 \<lparr>Float32bits = 0x7FC00000, truncated = 0\<rparr>)
        (\<lambda>v n. (True, Suc n)) (0::nat)
     = Inr ((0, False),
            \<lparr>segment =
              [[(KFloat64 0x7FF8000000000001 \<lparr>Float32bits = 0x7FC00000, truncated = 0\<rparr>, 5)]],
            hash = NewHash 1, segmented = False\<rparr>,
            0)"
  by (simp add: NewMap_def NewSegmentedMap_def map_defs router_defs f64_eq_def f64_nan_def
      holds_def DeleteConditional_def)

text \<open>
  Claim C1, amended. On every map built with a segment count of at least 1, after any
  operations that returned, for every key \<open>k\<close> of a kind the router accepts that is
  equal to itself (not a NaN) and every predicate \<open>p\<close>: if the map holds the entry
  \<open>(k, v)\<close>, \<^verbatim>\<open>DeleteConditional(k, p)\<close> runs \<open>p v\<close> once and returns \<open>(v, false)\<close>; when
  \<open>p v\<close> is true the map afterwards holds exactly the entries it held whose key is not
  \<open>k\<close>, and \<^verbatim>\<open>Get(k)\<close> returns \<open>(zero, false)\<close>; when \<open>p v\<close> is false the map is as it was.
  If the map holds no entry with a key equal to \<open>k\<close>, the call returns \<open>(zero, false)\<close>,
  changes nothing and does not run \<open>p\<close>.
\<close>

theorem DeleteConditional_result:
  assumes "1 \<le> n" and "NewSegmentedMap n c = Inr s0" and "run ops (s0, st0) = Inr (s, st1)"
    and "routable k" and "key_eq k k"
  shows "(holds s k v \<longrightarrow>
            (\<exists>s'. DeleteConditional s k p st = Inr ((v, False), s', snd (p v st))
               \<and> (if fst (p v st)
                  then (\<forall>k' v'. holds s' k' v' \<longleftrightarrow> holds s k' v' \<and> k' \<noteq> k)
                       \<and> Get s' k = Inr (0, False)
                  else s' = s)))
       \<and> (lacks s k \<longrightarrow> DeleteConditional s k p st = Inr ((0, False), s, st))"
proof (intro conjI impI)
  have w: "well_formed s" using assms(1,2,3) by (rule well_formed_built)
  from built_locked [OF w assms(4)] obtain h where h: "locked s k = Inr h" ..
  have r: "h < length (segment s)" using h by (rule locked_in_range)
  {
    assume p: "holds s k v"
    have l: "map_lookup (segment s ! h) k = Some v"
      using w h assms(5) p by (rule holds_lookup)
    show "\<exists>s'. DeleteConditional s k p st = Inr ((v, False), s', snd (p v st))
               \<and> (if fst (p v st)
                  then (\<forall>k' v'. holds s' k' v' \<longleftrightarrow> holds s k' v' \<and> k' \<noteq> k)
                       \<and> Get s' k = Inr (0, False)
                  else s' = s)"
    proof (cases "fst (p v st)")
      case True
      then have "DeleteConditional s k p st = Inr ((v, False), remove s h k, snd (p v st))"
        by (simp add: DeleteConditional_def h l split_beta)
      moreover have "\<forall>k' v'. holds (remove s h k) k' v' \<longleftrightarrow> holds s k' v' \<and> k' \<noteq> k"
        using remove_entries [OF w h assms(5) p] by blast
      moreover have "Get (remove s h k) k = Inr (0, False)"
        using h assms(5) by (simp add: Get_remove [OF r])
      ultimately show ?thesis using True by simp
    next
      case False
      then have "DeleteConditional s k p st = Inr ((v, False), s, snd (p v st))"
        by (simp add: DeleteConditional_def h l split_beta)
      with False show ?thesis by simp
    qed
  }
  {
    assume "lacks s k"
    with h have "map_lookup (segment s ! h) k = None" by (rule lacks_lookup)
    with h show "DeleteConditional s k p st = Inr ((0, False), s, st)"
      by (simp add: DeleteConditional_def)
  }
qed

theorem DeleteConditional_result_witness:
  "(NewSegmentedMap 2 1 :: error + int Map)
     = Inr \<lparr>segment = [[], []], hash = NewHash 2, segmented = True\<rparr>
   \<and> run [OpSet (KInt 1) 5] (\<lparr>segment = [[], []], hash = NewHash 2, segmented = True\<rparr>, 0::nat)
     = Inr (\<lparr>segment = [[(KInt 1, 5::int)], []], hash = NewHash 2, segmented = True\<rparr>, 0)
   \<and> routable (KInt 1) \<and> key_eq (KInt 1) (KInt 1)
   \<and> holds \<lparr>segment = [[(KInt 1, 5::int)], []], hash = NewHash 2, segmented = True\<rparr> (KInt 1) 5
   \<and> (\<exists>s'. DeleteConditional \<lparr>segment = [[(KInt 1, 5::int)], []], hash = NewHash 2, segmented = True\<rparr>
          (KInt 1) (\<lambda>v n. (v = 5, Suc n)) (0::nat) = Inr ((5, False), s', 1)
        \<and> Get s' (KInt 1) = Inr (0, False))
   \<and> routable (KInt 2) \<and> key_eq (KInt 2) (KInt 2)
   \<and> lacks \<lparr>segment = [[(KInt 1, 5::int)], []], hash = NewHash 2, segmented = True\<rparr> (KInt 2)
   \<and> DeleteConditional \<lparr>segment = [[(KInt 1, 5::int)], []], hash = NewHash 2, segmented = True\<rparr>
        (KInt 2) (\<lambda>v n. (v = 5, Suc n)) (0::nat)
     = Inr ((0, False), \<lparr>segment = [[(KInt 1, 5::int)], []], hash = NewHash 2, segmented = True\<rparr>, 0)"
proof -
  let ?e = "\<lparr>segment = [[], []], hash = NewHash 2, segmented = True\<rparr> :: int Map"
  let ?m = "\<lparr>segment = [[(KInt 1, 5::int)], []], hash = NewHash 2, segmented = True\<rparr>"
  let ?p = "\<lambda>(v::int) (n::nat). (v = 5, Suc n)"
  have o: "(1::int) \<le> 2" by simp
  have a: "(NewSegmentedMap 2 1 :: error + int Map) = Inr ?e"
    by (simp add: NewSegmentedMap_def NewHash_def Segments_def numeral_2_eq_2)
  have b: "run [OpSet (KInt 1) 5] (?e, 0::nat) = Inr (?m, 0)"
    by (simp add: map_defs router_defs)
  have r1: "routable (KInt 1)" and r2: "routable (KInt 2)"
    by (simp_all add: routable_def)
  have e1: "key_eq (KInt 1) (KInt 1)" and e2: "key_eq (KInt 2) (KInt 2)"
    by (simp_all add: key_eq_def)
  have p: "holds ?m (KInt 1) 5"
    by (simp add: holds_def)
  have q: "lacks ?m (KInt 2)"
    by (simp add: lacks_def key_eq_def)
  from DeleteConditional_result [OF o a b r1 e1, where v = 5 and p = ?p and st = 0] p
    DeleteConditional_result [OF o a b r2 e2, where v = 5 and p = ?p and st = 0] q
  have "(\<exists>s'. DeleteConditional ?m (KInt 1) ?p 0 = Inr ((5, False), s', 1)
        \<and> Get s' (KInt 1) = Inr (0, False))
      \<and> DeleteConditional ?m (KInt 2) ?p 0 = Inr ((0, False), ?m, 0)"
    by auto
  with a b r1 r2 e1 e2 p q show ?thesis by blast
qed

text \<open>
  Claim C8, as stated: when \<open>k\<close> is present with the value \<open>current\<close>, \<^verbatim>\<open>Update(k, d, fn)\<close>
  stores \<open>fn current\<close> and returns it with \<open>created = false\<close>. It fails for a \<^verbatim>\<open>float64\<close>
  key that is a NaN: after \<^verbatim>\<open>Set(NaN, 5)\<close> on the map \<^verbatim>\<open>NewMap\<close> builds, the segment holds
  the entry, and \<^verbatim>\<open>Update(NaN, 100, fn)\<close> with \<open>fn v = v + 1\<close> returns \<open>(101, true)\<close>, not
  \<open>(6, false)\<close>: it runs \<open>fn\<close> on the default and adds a second entry, since the lookup
  of a NaN in a Go map finds no entry.
\<close>

theorem Update_NaN_counterexample:
  "(NewMap :: error + int Map) = Inr \<lparr>segment = [[]], hash = NewHash 1, segmented = False\<rparr>
   \<and> Set \<lparr>segment = [[]], hash = NewHash 1, segmented = False\<rparr>
        (KFloat64 0x7FF8000000000001 \<lparr>Float32bits = 0x7FC00000, truncated = 0\<rparr>) (5::int)
     = Inr \<lparr>segment =
              [[(KFloat64 0x7FF8000000000001 \<lparr>Float32bits = 0x7FC00000, truncated = 0\<rparr>, 5)]],
            hash = NewHash 1, segmented = False\<rparr>
   \<and> holds \<lparr>segment =
              [[(KFloat64 0x7FF8000000000001 \<lparr>Float32bits = 0x7FC00000, truncated = 0\<rparr>, 5::int)]],
            hash = NewHash 1, segmented = False\<rparr>
        (KFloat64 0x7FF8000000000001 \<lparr>Float32bits = 0x7FC00000, truncated = 0\<rparr>) 5
   \<and> Update
        \<lparr>segment =
              [[(KFloat64 0x7FF8000000000001 \<lparr>Float32bits = 0x7FC00000, truncated = 0\<rparr>, 5::int)]],
            hash = NewHash 1, segmented = False\<rparr>
        (KFloat64 0x7FF8000000000001 \<lparr>Float32bits = 0x7FC00000, truncated = 0\<rparr>) 100
        (\<lambda>v n. (v + 1, Suc n)) (0::nat)
     = Inr ((101, True),
            \<lparr>segment =
              [[(KFloat64 0x7FF8000000000001 \<lparr>Float32bits = 0x7FC00000, truncated = 0\<rparr>, 5),
                (KFloat64 0x7FF8000000000001 \<lparr>Float32bits = 0x7FC00000, truncated = 0\<rparr>, 101)]],
            hash = NewHash 1, segmented = False\<rparr>,
            1)"
  by (simp add: NewMap_def NewSegmentedMap_def map_defs router_defs f64_eq_def f64_nan_def
      holds_def Update_def)

text \<open>
  Claim C8, amended. On every map built with a segment count of at least 1, after any
  operations that returned, for every key \<open>k\<close> of a kind the router accepts that is
  equal to itself (not a NaN), every default \<open>d\<close> and every function \<open>fn\<close>: if the map
  holds the entry \<open>(k, current)\<close>, \<^verbatim>\<open>Update(k, d, fn)\<close> returns \<open>(fn current, false)\<close>; if the
  map holds no entry with a key equal to \<open>k\<close>, it returns \<open>(fn d, true)\<close>. In both cases
  \<open>fn\<close> runs exactly once (the caller's state returned is that of one run), and the
  map afterwards holds under \<open>k\<close> the value returned and nothing else, holds under
  every other key what it held, and \<^verbatim>\<open>Get(k)\<close> returns the value returned with \<open>true\<close>.
\<close>

theorem Update_result:
  assumes "1 \<le> n" and "NewSegmentedMap n c = Inr s0" and "run ops (s0, st0) = Inr (s, st1)"
    and "routable k" and "key_eq k k"
  shows "(holds s k cur \<longrightarrow>
            (\<exists>s'. Update s k d f st = Inr ((fst (f cur st), False), s', snd (f cur st))
               \<and> (\<forall>k' v'. holds s' k' v' \<longleftrightarrow>
                    (if k' = k then v' = fst (f cur st) else holds s k' v'))
               \<and> Get s' k = Inr (fst (f cur st), True)))
       \<and> (lacks s k \<longrightarrow>
            (\<exists>s'. Update s k d f st = Inr ((fst (f d st), True), s', snd (f d st))
               \<and> (\<forall>k' v'. holds s' k' v' \<longleftrightarrow>
                    (if k' = k then v' = fst (f d st) else holds s k' v'))
               \<and> Get s' k = Inr (fst (f d st), True)))"
proof (intro conjI impI)
  have w: "well_formed s" using assms(1,2,3) by (rule well_formed_built)
  from built_locked [OF w assms(4)] obtain h where h: "locked s k = Inr h" ..
  have r: "h < length (segment s)" using h by (rule locked_in_range)
  have g: "\<And>x. Get (store s h k x) k = Inr (x, True)"
    using h assms(5) by (simp add: Get_store [OF r])
  {
    assume p: "holds s k cur"
    have l: "map_lookup (segment s ! h) k = Some cur"
      using w h assms(5) p by (rule holds_lookup)
    have "Update s k d f st
        = Inr ((fst (f cur st), False), store s h k (fst (f cur st)), snd (f cur st))"
      by (simp add: Update_def h l split_beta)
    moreover have "\<forall>k' v'. holds (store s h k (fst (f cur st))) k' v' \<longleftrightarrow>
        (if k' = k then v' = fst (f cur st) else holds s k' v')"
      using store_entries [OF w h assms(5)] p by blast
    ultimately
    show "\<exists>s'. Update s k d f st = Inr ((fst (f cur st), False), s', snd (f cur st))
               \<and> (\<forall>k' v'. holds s' k' v' \<longleftrightarrow>
                    (if k' = k then v' = fst (f cur st) else holds s k' v'))
               \<and> Get s' k = Inr (fst (f cur st), True)"
      using g by blast
  }
  {
    assume a: "lacks s k"
    with h have l: "map_lookup (segment s ! h) k = None" by (rule lacks_lookup)
    have "Update s k d f st
        = Inr ((fst (f d st), True), store s h k (fst (f d st)), snd (f d st))"
      by (simp add: Update_def h l split_beta)
    moreover have "\<forall>k' v'. holds (store s h k (fst (f d st))) k' v' \<longleftrightarrow>
        (if k' = k then v' = fst (f d st) else holds s k' v')"
      using store_entries [OF w h assms(5)] a by blast
    ultimately
    show "\<exists>s'. Update s k d f st = Inr ((fst (f d st), True), s', snd (f d st))
               \<and> (\<forall>k' v'. holds s' k' v' \<longleftrightarrow>
                    (if k' = k then v' = fst (f d st) else holds s k' v'))
               \<and> Get s' k = Inr (fst (f d st), True)"
      using g by blast
  }
qed

theorem Update_result_witness:
  "(NewSegmentedMap 2 1 :: error + int Map)
     = Inr \<lparr>segment = [[], []], hash = NewHash 2, segmented = True\<rparr>
   \<and> run [OpSet (KInt 1) 5] (\<lparr>segment = [[], []], hash = NewHash 2, segmented = True\<rparr>, 0::nat)
     = Inr (\<lparr>segment = [[(KInt 1, 5::int)], []], hash = NewHash 2, segmented = True\<rparr>, 0)
   \<and> routable (KInt 1) \<and> key_eq (KInt 1) (KInt 1)
   \<and> holds \<lparr>segment = [[(KInt 1, 5::int)], []], hash = NewHash 2, segmented = True\<rparr> (KInt 1) 5
   \<and> (\<exists>s'. Update \<lparr>segment = [[(KInt 1, 5::int)], []], hash = NewHash 2, segmented = True\<rparr>
          (KInt 1) 100 (\<lambda>v n. (v + 1, Suc n)) (0::nat) = Inr ((6, False), s', 1)
        \<and> Get s' (KInt 1) = Inr (6, True))
   \<and> routable (KInt 2) \<and> key_eq (KInt 2) (KInt 2)
   \<and> lacks \<lparr>segment = [[(KInt 1, 5::int)], []], hash = NewHash 2, segmented = True\<rparr> (KInt 2)
   \<and> (\<exists>s'. Update \<lparr>segment = [[(KInt 1, 5::int)], []], hash = NewHash 2, segmented = True\<rparr>
          (KInt 2) 100 (\<lambda>v n. (v + 1, Suc n)) (0::nat) = Inr ((101, True), s', 1)
        \<and> Get s' (KInt 2) = Inr (101, True))"
proof -
  let ?e = "\<lparr>segment = [[], []], hash = NewHash 2, segmented = True\<rparr> :: int Map"
  let ?m = "\<lparr>segment = [[(KInt 1, 5::int)], []], hash = NewHash 2, segmented = True\<rparr>"
  let ?f = "\<lambda>(v::int) (n::nat). (v + 1, Suc n)"
  have o: "(1::int) \<le> 2" by simp
  have a: "(NewSegmentedMap 2 1 :: error + int Map) = Inr ?e"
    by (simp add: NewSegmentedMap_def NewHash_def Segments_def numeral_2_eq_2)
  have b: "run [OpSet (KInt 1) 5] (?e, 0::nat) = Inr (?m, 0)"
    by (simp add: map_defs router_defs)
  have r1: "routable (KInt 1)" and r2: "routable (KInt 2)"
    by (simp_all add: routable_def)
  have e1: "key_eq (KInt 1) (KInt 1)" and e2: "key_eq (KInt 2) (KInt 2)"
    by (simp_all add: key_eq_def)
  have p: "holds ?m (KInt 1) 5"
    by (simp add: holds_def)
  have q: "lacks ?m (KInt 2)"
    by (simp add: lacks_def key_eq_def)
  from Update_result [OF o a b r1 e1, where cur = 5 and d = 100 and f = ?f and st = 0] p
    Update_result [OF o a b r2 e2, where cur = 5 and d = 100 and f = ?f and st = 0] q
  have "(\<exists>s'. Update ?m (KInt 1) 100 ?f 0 = Inr ((6, False), s', 1)
        \<and> Get s' (KInt 1) = Inr (6, True))
      \<and> (\<exists>s'. Update ?m (KInt 2) 100 ?f 0 = Inr ((101, True), s', 1)
        \<and> Get s' (KInt 2) = Inr (101, True))"
    by auto
  with a b r1 r2 e1 e2 p q show ?thesis by blast
qed

text \<open>
  Claim C9, as stated: when \<open>k\<close> is present, \<^verbatim>\<open>GetOrSet(k, supplier)\<close> returns the existing
  value with \<open>created = false\<close> and does not invoke the supplier. It fails for a
  \<^verbatim>\<open>float64\<close> key that is a NaN: after \<^verbatim>\<open>Set(NaN, 5)\<close> on the map \<^verbatim>\<open>NewMap\<close> builds, the
  segment holds the entry, and \<^verbatim>\<open>GetOrSet(NaN, supplier)\<close> runs the supplier (the
  caller's count of its runs becomes 1), returns its value 7 with \<open>created = true\<close> and
  adds a second entry.
\<close>

theorem GetOrSet_NaN_counterexample:
  "(NewMap :: error + int Map) = Inr \<lparr>segment = [[]], hash = NewHash 1, segmented = False\<rparr>
   \<and> Set \<lparr>segment = [[]], hash = NewHash 1, segmented = False\<rparr>
        (KFloat64 0x7FF8000000000001 \<lparr>Float32bits = 0x7FC00000, truncated = 0\<rparr>) (5::int)
     = Inr \<lparr>segment =
              [[(KFloat64 0x7FF8000000000001 \<lparr>Float32bits = 0x7FC00000, truncated = 0\<rparr>, 5)]],
            hash = NewHash 1, segmented = False\<rparr>
   \<and> holds \<lparr>segment =
              [[(KFloat64 0x7FF8000000000001 \<lparr>Float32bits = 0x7FC00000, truncated = 0\<rparr>, 5::int)]],
            hash = NewHash 1, segmented = False\<rparr>
        (KFloat64 0x7FF8000000000001 \<lparr>Float32bits = 0x7FC00000, truncated = 0\<rparr>) 5
   \<and> GetOrSet
        \<lparr>segment =
              [[(KFloat64 0x7FF8000000000001 \<lparr>Float32bits = 0x7FC00000, truncated = 0\<rparr>, 5::int)]],
            hash = NewHash 1, segmented = False\<rparr>
        (KFloat64 0x7FF8000000000001 \<lparr>Float32bits = 0x7FC00000, truncated = 0\<rparr>)
        (\<lambda>n. (7, Suc n)) (0::nat)
     = Inr ((7, True),
            \<lparr>segment =
              [[(KFloat64 0x7FF8000000000001 \<lparr>Float32bits = 0x7FC00000, truncated = 0\<rparr>, 5),
                (KFloat64 0x7FF8000000000001 \<lparr>Float32bits = 0x7FC00000, truncated = 0\<rparr>, 7)]],
            hash = NewHash 1, segmented = False\<rparr>,
            1)"
  by (simp add: NewMap_def NewSegmentedMap_def map_defs router_defs f64_eq_def f64_nan_def
      holds_def GetOrSet_def)

text \<open>
  Claim C9, amended. On every map built with a segment count of at least 1, after any
  operations that returned, for every key \<open>k\<close> of a kind the router accepts that is
  equal to itself (not a NaN) and every supplier: if the map holds the entry \<open>(k, v)\<close>,
  \<^verbatim>\<open>GetOrSet(k, supplier)\<close> returns \<open>(v, false)\<close>, changes nothing and does not run the
  supplier (the caller's state comes back as it was); if the map holds no entry with a
  key equal to \<open>k\<close>, it runs the supplier exactly once and returns the value produced
  with \<open>created = true\<close>, and the map afterwards holds that value under \<open>k\<close> and nothing
  else, holds under every other key what it held, and \<^verbatim>\<open>Get(k)\<close> returns that value with
  \<open>true\<close>. So the supplier runs at most once in a call.
\<close>

theorem GetOrSet_result:
  assumes "1 \<le> n" and "NewSegmentedMap n c = Inr s0" and "run ops (s0, st0) = Inr (s, st1)"
    and "routable k" and "key_eq k k"
  shows "(holds s k v \<longrightarrow> GetOrSet s k f st = Inr ((v, False), s, st))
       \<and> (lacks s k \<longrightarrow>
            (\<exists>s'. GetOrSet s k f st = Inr ((fst (f st), True), s', snd (f st))
               \<and> (\<forall>k' v'. holds s' k' v' \<longleftrightarrow>
                    (if k' = k then v' = fst (f st) else holds s k' v'))
               \<and> Get s' k = Inr (fst (f st), True)))"
proof (intro conjI impI)
  have w: "well_formed s" using assms(1,2,3) by (rule well_formed_built)
  from built_locked [OF w assms(4)] obtain h where h: "locked s k = Inr h" ..
  have r: "h < length (segment s)" using h by (rule locked_in_range)
  {
    assume p: "holds s k v"
    have "map_lookup (segment s ! h) k = Some v"
      using w h assms(5) p by (rule holds_lookup)
    with h have "Get s k = Inr (v, True)" by (auto simp: Get_present_iff)
    then show "GetOrSet s k f st = Inr ((v, False), s, st)"
      by (simp add: GetOrSet_def)
  }
  {
    assume a: "lacks s k"
    with h have l: "map_lookup (segment s ! h) k = None" by (rule lacks_lookup)
    with h have "Get s k = Inr (0, False)" by (auto simp: Get_absent_iff)
    then have "GetOrSet s k f st
        = Inr ((fst (f st), True), store s h k (fst (f st)), snd (f st))"
      by (simp add: GetOrSet_def h l split_beta)
    moreover have "\<forall>k' v'. holds (store s h k (fst (f st))) k' v' \<longleftrightarrow>
        (if k' = k then v' = fst (f st) else holds s k' v')"
      using store_entries [OF w h assms(5)] a by blast
    moreover have "Get (store s h k (fst (f st))) k = Inr (fst (f st), True)"
      using h assms(5) by (simp add: Get_store [OF r])
    ultimately
    show "\<exists>s'. GetOrSet s k f st = Inr ((fst (f st), True), s', snd (f st))
               \<and> (\<forall>k' v'. holds s' k' v' \<longleftrightarrow>
                    (if k' = k then v' = fst (f st) else holds s k' v'))
               \<and> Get s' k = Inr (fst (f st), True)"
      by blast
  }
qed

theorem GetOrSet_result_witness:
  "(NewSegmentedMap 2 1 :: error + int Map)
     = Inr \<lparr>segment = [[], []], hash = NewHash 2, segmented = True\<rparr>
   \<and> run [OpSet (KInt 1) 5] (\<lparr>segment = [[], []], hash = NewHash 2, segmented = True\<rparr>, 0::nat)
     = Inr (\<lparr>segment = [[(KInt 1, 5::int)], []], hash = NewHash 2, segmented = True\<rparr>, 0)
   \<and> routable (KInt 1) \<and> key_eq (KInt 1) (KInt 1)
   \<and> holds \<lparr>segment = [[(KInt 1, 5::int)], []], hash = NewHash 2, segmented = True\<rparr> (KInt 1) 5
   \<and> GetOrSet \<lparr>segment = [[(KInt 1, 5::int)], []], hash = NewHash 2, segmented = True\<rparr>
        (KInt 1) (\<lambda>n. (7, Suc n)) (0::nat)
     = Inr ((5, False), \<lparr>segment = [[(KInt 1, 5::int)], []], hash = NewHash 2, segmented = True\<rparr>, 0)
   \<and> routable (KInt 2) \<and> key_eq (KInt 2) (KInt 2)
   \<and> lacks \<lparr>segment = [[(KInt 1, 5::int)], []], hash = NewHash 2, segmented = True\<rparr> (KInt 2)
   \<and> (\<exists>s'. GetOrSet \<lparr>segment = [[(KInt 1, 5::int)], []], hash = NewHash 2, segmented = True\<rparr>
          (KInt 2) (\<lambda>n. (7, Suc n)) (0::nat) = Inr ((7, True), s', 1)
        \<and> Get s' (KInt 2) = Inr (7, True))"
proof -
  let ?e = "\<lparr>segment = [[], []], hash = NewHash 2, segmented = True\<rparr> :: int Map"
  let ?m = "\<lparr>segment = [[(KInt 1, 5::int)], []], hash = NewHash 2, segmented = True\<rparr>"
  let ?f = "\<lambda>n::nat. (7::int, Suc n)"
  have o: "(1::int) \<le> 2" by simp
  have a: "(NewSegmentedMap 2 1 :: error + int Map) = Inr ?e"
    by (simp add: NewSegmentedMap_def NewHash_def Segments_def numeral_2_eq_2)
  have b: "run [OpSet (KInt 1) 5] (?e, 0::nat) = Inr (?m, 0)"
    by (simp add: map_defs router_defs)
  have r1: "routable (KInt 1)" and r2: "routable (KInt 2)"
    by (simp_all add: routable_def)
  have e1: "key_eq (KInt 1) (KInt 1)" and e2: "key_eq (KInt 2) (KInt 2)"
    by (simp_all add: key_eq_def)
  have p: "holds ?m (KInt 1) 5"
    by (simp add: holds_def)
  have q: "lacks ?m (KInt 2)"
    by (simp add: lacks_def key_eq_def)
  from GetOrSet_result [OF o a b r1 e1, where v = 5 and f = ?f and st = 0] p
    GetOrSet_result [OF o a b r2 e2, where v = 5 and f = ?f and st = 0] q
  have "GetOrSet ?m (KInt 1) ?f 0 = Inr ((5, False), ?m, 0)
      \<and> (\<exists>s'. GetOrSet ?m (KInt 2) ?f 0 = Inr ((7, True), s', 1)
        \<and> Get s' (KInt 2) = Inr (7, True))"
    by auto
  with a b r1 r2 e1 e2 p q show ?thesis by blast
qed

subsection \<open>Delete on the maps that can be built\<close>

lemma hash_remove_keys: "hash (foldl (\<lambda>s' k. remove s' h k) s ks) = hash s"
  by (induction ks arbitrary: s) simp_all

lemma remove_keys_entries:
  "well_formed s \<Longrightarrow>
   holds (foldl (\<lambda>s' k. remove s' h k) s ks) k' v' \<longleftrightarrow>
     holds s k' v' \<and> \<not> (\<exists>k\<in>set ks. key_eq k' k \<and> Get_hash (hash s) k' = Inr h)"
proof (induction ks arbitrary: s)
  case Nil
  show ?case by simp
next
  case (Cons k ks)
  have w: "well_formed (remove s h k)" using Cons.prems by (rule well_formed_remove)
  from Cons.IH [OF w] holds_remove_iff [OF Cons.prems, of h k k' v']
  show ?case by auto
qed

lemma delete_groups_entries:
  "well_formed s \<Longrightarrow> delete_groups s g = Inr s' \<Longrightarrow>
   holds s' k' v' \<longleftrightarrow>
     holds s k' v' \<and> \<not> (\<exists>(h, k)\<in>pairs g. key_eq k' k \<and> Get_hash (hash s) k' = Inr h)"
proof (induction g arbitrary: s)
  case Nil
  then show ?case by simp
next
  case (Cons e g)
  obtain h ks where e: "e = (h, ks)" by (cases e)
  let ?s1 = "foldl (\<lambda>s' k. remove s' h k) s ks"
  from Cons.prems(2) have d: "delete_groups ?s1 g = Inr s'"
    by (simp add: e split: sum.splits)
  have w: "well_formed ?s1" using Cons.prems(1) by (rule well_formed_remove_keys)
  from Cons.IH [OF w d] remove_keys_entries [OF Cons.prems(1), of h ks k' v']
  show ?case by (auto simp: e pairs_Cons hash_remove_keys)
qed

lemma Delete_entries:
  assumes "well_formed s" and "Delete s ks = Inr s'"
  shows "holds s' k' v' \<longleftrightarrow>
     holds s k' v' \<and>
     \<not> (\<exists>k\<in>set ks. key_eq k' k \<and> Get_hash (hash s) k' = Get_hash (hash s) k)"
proof -
  from assms(2) obtain g where g: "group_keys (hash s) ks [] = Inr g"
    and d: "delete_groups s g = Inr s'"
    by (auto simp: Delete_def split: sum.splits)
  have p: "pairs g = {(h, k). k \<in> set ks \<and> Get_hash (hash s) k = Inr h}"
    using group_keys_pairs [OF g] by simp
  have "(\<exists>(h, k)\<in>pairs g. key_eq k' k \<and> Get_hash (hash s) k' = Inr h)
      \<longleftrightarrow> (\<exists>k\<in>set ks. key_eq k' k \<and> Get_hash (hash s) k' = Get_hash (hash s) k)"
  proof
    assume "\<exists>(h, k)\<in>pairs g. key_eq k' k \<and> Get_hash (hash s) k' = Inr h"
    then obtain h k where "(h, k) \<in> pairs g" "key_eq k' k" "Get_hash (hash s) k' = Inr h"
      by blast
    then have "k \<in> set ks \<and> key_eq k' k \<and> Get_hash (hash s) k' = Get_hash (hash s) k"
      by (simp add: p)
    then show "\<exists>k\<in>set ks. key_eq k' k \<and> Get_hash (hash s) k' = Get_hash (hash s) k"
      by blast
  next
    assume "\<exists>k\<in>set ks. key_eq k' k \<and> Get_hash (hash s) k' = Get_hash (hash s) k"
    then obtain k where k: "k \<in> set ks" "key_eq k' k"
      "Get_hash (hash s) k' = Get_hash (hash s) k"
      by blast
    from group_keys_routes [OF g] k(1) obtain h where h: "Get_hash (hash s) k = Inr h"
      by blast
    with k have "(h, k) \<in> pairs g" "Get_hash (hash s) k' = Inr h" by (simp_all add: p)
    with k(2) show "\<exists>(h, k)\<in>pairs g. key_eq k' k \<and> Get_hash (hash s) k' = Inr h"
      by blast
  qed
  with delete_groups_entries [OF assms(1) d, of k' v'] show ?thesis by simp
qed

text \<open>
  Claim C10, as stated: for every map and every list of keys, every listed key is
  absent after \<^verbatim>\<open>Delete(keys...)\<close>. It fails for a \<^verbatim>\<open>float64\<close> key that is a NaN: after
  \<^verbatim>\<open>Set(NaN, 5)\<close> on the map \<^verbatim>\<open>NewMap\<close> builds, \<^verbatim>\<open>Delete(NaN)\<close> returns the map as it was,
  and the segment still holds the entry, since \<^verbatim>\<open>delete(m, k)\<close> on a Go map removes the
  entry whose key equals \<open>k\<close> and a NaN equals nothing.
\<close>

theorem Delete_NaN_counterexample:
  "(NewMap :: error + int Map) = Inr \<lparr>segment = [[]], hash = NewHash 1, segmented = False\<rparr>
   \<and> Set \<lparr>segment = [[]], hash = NewHash 1, segmented = False\<rparr>
        (KFloat64 0x7FF8000000000001 \<lparr>Float32bits = 0x7FC00000, truncated = 0\<rparr>) (5::int)
     = Inr \<lparr>segment =
              [[(KFloat64 0x7FF8000000000001 \<lparr>Float32bits = 0x7FC00000, truncated = 0\<rparr>, 5)]],
            hash = NewHash 1, segmented = False\<rparr>
   \<and> Delete
        \<lparr>segment =
              [[(KFloat64 0x7FF8000000000001 \<lparr>Float32bits = 0x7FC00000, truncated = 0\<rparr>, 5::int)]],
            hash = NewHash 1, segmented = False\<rparr>
        [KFloat64 0x7FF8000000000001 \<lparr>Float32bits = 0x7FC00000, truncated = 0\<rparr>]
     = Inr \<lparr>segment =
              [[(KFloat64 0x7FF8000000000001 \<lparr>Float32bits = 0x7FC00000, truncated = 0\<rparr>, 5)]],
            hash = NewHash 1, segmented = False\<rparr>
   \<and> holds \<lparr>segment =
              [[(KFloat64 0x7FF8000000000001 \<lparr>Float32bits = 0x7FC00000, truncated = 0\<rparr>, 5::int)]],
            hash = NewHash 1, segmented = False\<rparr>
        (KFloat64 0x7FF8000000000001 \<lparr>Float32bits = 0x7FC00000, truncated = 0\<rparr>) 5"
  by (simp add: NewMap_def NewSegmentedMap_def map_defs router_defs f64_eq_def f64_nan_def
      holds_def Delete_def)

text \<open>
  Claim C10, amended. On every map built with a segment count of at least 1, after any
  operations that returned, and for every list of keys of kinds the router accepts (the
  list may be empty, repeat keys, and name keys the map does not hold),
  \<^verbatim>\<open>Delete(keys...)\<close> returns, and the map then holds the entries it held less those of
  the listed keys: it holds no entry under a listed key that is equal to itself (an
  entry whose key is a NaN is never removed), \<^verbatim>\<open>Get\<close> returns \<open>(zero, false)\<close> for every
  listed key, it holds no entry it did not hold before, and it holds every entry whose
  key is equal to no listed key exactly as before, with \<^verbatim>\<open>Get\<close> answering for such a
  key as before. When the map holds no entry with a key equal to a listed one, and so
  when no key is listed, the map is left as it was.
\<close>

theorem Delete_removes_listed:
  assumes "1 \<le> n" and "NewSegmentedMap n c = Inr s0" and "run ops (s0, st0) = Inr (s, st1)"
    and "\<forall>k\<in>set keys. routable k"
  shows "\<exists>s'. Delete s keys = Inr s'
     \<and> (\<forall>k\<in>set keys. key_eq k k \<longrightarrow> (\<forall>v. \<not> holds s' k v))
     \<and> (\<forall>k\<in>set keys. Get s' k = Inr (0, False))
     \<and> (\<forall>k' v. holds s' k' v \<longrightarrow> holds s k' v)
     \<and> (\<forall>k' v. (\<forall>k\<in>set keys. \<not> key_eq k k') \<longrightarrow> holds s' k' v = holds s k' v)
     \<and> (\<forall>k'. (\<forall>k\<in>set keys. \<not> key_eq k k') \<longrightarrow> Get s' k' = Get s k')
     \<and> ((\<forall>k\<in>set keys. lacks s k) \<longrightarrow> s' = s)"
proof -
  have w: "well_formed s" using assms(1,2,3) by (rule well_formed_built)
  have l: "\<forall>k\<in>set keys. \<exists>h. locked s k = Inr h"
    using assms(4) built_locked [OF w] by blast
  then have "\<forall>k\<in>set keys. \<exists>r. Get s k = Inr r"
    by (simp only: Get_returns_iff)
  from Delete_Get [OF this] obtain s' where s': "Delete s keys = Inr s'"
    and g1: "\<forall>k\<in>set keys. Get s' k = Inr (0, False)"
    and g2: "\<forall>k'. (\<forall>k\<in>set keys. \<not> key_eq k k') \<longrightarrow> Get s' k' = Get s k'"
    and g3: "(\<forall>k\<in>set keys. Get s k = Inr (0, False)) \<longrightarrow> s' = s"
    by blast
  note e = Delete_entries [OF w s']
  have "\<forall>k\<in>set keys. key_eq k k \<longrightarrow> (\<forall>v. \<not> holds s' k v)"
    using e by blast
  moreover have "\<forall>k' v. holds s' k' v \<longrightarrow> holds s k' v"
    using e by blast
  moreover have "\<forall>k' v. (\<forall>k\<in>set keys. \<not> key_eq k k') \<longrightarrow> holds s' k' v = holds s k' v"
  proof (intro allI impI)
    fix k' v
    assume "\<forall>k\<in>set keys. \<not> key_eq k k'"
    then have "\<forall>k\<in>set keys. \<not> key_eq k' k" using key_eq_sym by blast
    then show "holds s' k' v = holds s k' v" using e [of k' v] by blast
  qed
  moreover have "(\<forall>k\<in>set keys. lacks s k) \<longrightarrow> s' = s"
  proof
    assume a: "\<forall>k\<in>set keys. lacks s k"
    have "\<forall>k\<in>set keys. Get s k = Inr (0, False)"
    proof
      fix k
      assume k: "k \<in> set keys"
      with l obtain h where h: "locked s k = Inr h" by blast
      from k a have "lacks s k" by blast
      with h have "map_lookup (segment s ! h) k = None" by (rule lacks_lookup)
      with h show "Get s k = Inr (0, False)" by (auto simp: Get_absent_iff)
    qed
    with g3 show "s' = s" by blast
  qed
  ultimately show ?thesis using s' g1 g2 by blast
qed

theorem Delete_removes_listed_witness:
  "(NewSegmentedMap 2 1 :: error + int Map)
     = Inr \<lparr>segment = [[], []], hash = NewHash 2, segmented = True\<rparr>
   \<and> run [OpSet (KInt 1) 5, OpSet (KInt 2) 7]
        (\<lparr>segment = [[], []], hash = NewHash 2, segmented = True\<rparr>, 0::nat)
     = Inr (\<lparr>segment = [[(KInt 1, 5::int)], [(KInt 2, 7)]], hash = NewHash 2, segmented = True\<rparr>, 0)
   \<and> routable (KInt 1) \<and> routable (KInt 3) \<and> key_eq (KInt 1) (KInt 1)
   \<and> (\<exists>s'. Delete \<lparr>segment = [[(KInt 1, 5::int)], [(KInt 2, 7)]], hash = NewHash 2, segmented = True\<rparr>
          [KInt 1, KInt 3, KInt 1] = Inr s'
        \<and> \<not> holds s' (KInt 1) 5
        \<and> Get s' (KInt 1) = Inr (0, False)
        \<and> Get s' (KInt 3) = Inr (0, False)
        \<and> holds s' (KInt 2) 7)
   \<and> lacks \<lparr>segment = [[(KInt 1, 5::int)], [(KInt 2, 7)]], hash = NewHash 2, segmented = True\<rparr> (KInt 3)
   \<and> Delete \<lparr>segment = [[(KInt 1, 5::int)], [(KInt 2, 7)]], hash = NewHash 2, segmented = True\<rparr>
        [KInt 3, KInt 3]
     = Inr \<lparr>segment = [[(KInt 1, 5::int)], [(KInt 2, 7)]], hash = NewHash 2, segmented = True\<rparr>"
proof -
  let ?e = "\<lparr>segment = [[], []], hash = NewHash 2, segmented = True\<rparr> :: int Map"
  let ?m = "\<lparr>segment = [[(KInt 1, 5::int)], [(KInt 2, 7)]], hash = NewHash 2, segmented = True\<rparr>"
  have o: "(1::int) \<le> 2" by simp
  have a: "(NewSegmentedMap 2 1 :: error + int Map) = Inr ?e"
    by (simp add: NewSegmentedMap_def NewHash_def Segments_def numeral_2_eq_2)
  have b: "run [OpSet (KInt 1) 5, OpSet (KInt 2) 7] (?e, 0::nat) = Inr (?m, 0)"
    by (simp add: map_defs router_defs)
  have r1: "routable (KInt 1)" and r3: "routable (KInt 3)"
    by (simp_all add: routable_def)
  have e1: "key_eq (KInt 1) (KInt 1)"
    by (simp add: key_eq_def)
  have r: "\<forall>k\<in>set [KInt 1, KInt 3, KInt 1]. routable k"
    using r1 r3 by simp
  have r': "\<forall>k\<in>set [KInt 3, KInt 3]. routable k"
    using r3 by simp
  have n: "\<forall>k\<in>set [KInt 1, KInt 3, KInt 1]. \<not> key_eq k (KInt 2)"
    by (simp add: key_eq_def)
  have h2: "holds ?m (KInt 2) 7"
    by (simp add: holds_def)
  have q: "lacks ?m (KInt 3)"
    by (simp add: lacks_def key_eq_def)
  then have q': "\<forall>k\<in>set [KInt 3, KInt 3]. lacks ?m k" by simp
  from Delete_removes_listed [OF o a b r] obtain s'
    where d: "Delete ?m [KInt 1, KInt 3, KInt 1] = Inr s'"
      and x: "\<forall>k\<in>set [KInt 1, KInt 3, KInt 1]. key_eq k k \<longrightarrow> (\<forall>v. \<not> holds s' k v)"
      and y: "\<forall>k\<in>set [KInt 1, KInt 3, KInt 1]. Get s' k = Inr (0, False)"
      and z: "\<forall>k' v. (\<forall>k\<in>set [KInt 1, KInt 3, KInt 1]. \<not> key_eq k k') \<longrightarrow>
                holds s' k' v = holds ?m k' v"
    by blast
  from x e1 have "\<not> holds s' (KInt 1) 5" by simp
  moreover from y have "Get s' (KInt 1) = Inr (0, False)" "Get s' (KInt 3) = Inr (0, False)"
    by simp_all
  moreover from z n h2 have "holds s' (KInt 2) 7" by blast
  ultimately have c: "\<exists>s'. Delete ?m [KInt 1, KInt 3, KInt 1] = Inr s'
        \<and> \<not> holds s' (KInt 1) 5
        \<and> Get s' (KInt 1) = Inr (0, False)
        \<and> Get s' (KInt 3) = Inr (0, False)
        \<and> holds s' (KInt 2) 7"
    using d by blast
  from Delete_removes_listed [OF o a b r'] q'
  have "Delete ?m [KInt 3, KInt 3] = Inr ?m" by auto
  with a b r1 r3 e1 c q show ?thesis by blast
qed

end
